theory Spec2Isabelle
  imports Main
begin

section \<open>The JSON stream parser of IotCommon/json.c\<close>

text \<open>
  The parser consumes one character per call of \<open>jsonEat\<close> and reports what it
  recognises through seven optional callbacks. All of its state lives in one
  \<open>parser_data_t\<close> structure; a pool of \<open>MAXPARSERS\<close> such structures and a pointer
  to the selected one are global.
\<close>

subsection \<open>Constants\<close>

abbreviation (input) MAXPARSERS :: nat where "MAXPARSERS \<equiv> 2"
abbreviation (input) MAXSTATES :: nat where "MAXSTATES \<equiv> 10"
abbreviation (input) MAXSTACK :: nat where "MAXSTACK \<equiv> 5"
abbreviation (input) MAXERRORBUFFER :: nat where "MAXERRORBUFFER \<equiv> 20"
abbreviation (input) MAXNAME :: nat where "MAXNAME \<equiv> 30"
abbreviation (input) MAXVALUE :: nat where "MAXVALUE \<equiv> 160"

datatype pstate =
    STATE_NONE
  | STATE_INOBJECT
  | STATE_TONAME
  | STATE_INNAME
  | STATE_TOCOLUMN
  | STATE_TOVALUE
  | STATE_INSTRING
  | STATE_INNUM
  | STATE_INARRAY
  | STATE_OUTVALUE

abbreviation (input) ERR_NONE :: int where "ERR_NONE \<equiv> 0"
abbreviation (input) ERR_DISCARD :: int where "ERR_DISCARD \<equiv> 1"
abbreviation (input) ERR_NAMETOOLONG :: int where "ERR_NAMETOOLONG \<equiv> 2"
abbreviation (input) ERR_VALUETOOLONG :: int where "ERR_VALUETOOLONG \<equiv> 3"
abbreviation (input) ERR_PARSE_OBJECT :: int where "ERR_PARSE_OBJECT \<equiv> 4"
abbreviation (input) ERR_PARSE_NAME :: int where "ERR_PARSE_NAME \<equiv> 5"
abbreviation (input) ERR_PARSE_ILLNAME :: int where "ERR_PARSE_ILLNAME \<equiv> 6"
abbreviation (input) ERR_PARSE_ASSIGNMENT :: int where "ERR_PARSE_ASSIGNMENT \<equiv> 7"
abbreviation (input) ERR_PARSE_VALUE :: int where "ERR_PARSE_VALUE \<equiv> 8"
abbreviation (input) ERR_PARSE_ARRAY :: int where "ERR_PARSE_ARRAY \<equiv> 9"
abbreviation (input) ERR_INTERNAL :: int where "ERR_INTERNAL \<equiv> 10"

definition json_errors :: "string list" where
  "json_errors =
    [''none'', ''discard'', ''name too long'', ''value too long'', ''parsing object'',
     ''parsing name'', ''illegal name char'', ''parsing assignment'', ''parsing value'',
     ''parsing array'', ''internal error'']"

abbreviation (input) NUL :: char where "NUL \<equiv> CHR 0x00"
abbreviation (input) DQUOTE :: char where "DQUOTE \<equiv> CHR 0x22"
abbreviation (input) BACKSLASH :: char where "BACKSLASH \<equiv> CHR 0x5C"

subsection \<open>The parser structure\<close>

text \<open>
  A call of a registered callback, with the arguments it receives. Strings are the
  C strings the callee reads through the pointer it is handed: the bytes up to the
  first NUL.
\<close>

datatype event =
    CallError int string string
  | CallObjectStart string
  | CallObjectComplete string
  | CallArrayStart string
  | CallArrayComplete string
  | CallString string string
  | CallInteger string int

text \<open>A function pointer: \<open>None\<close> is \<open>NULL\<close>, \<open>Some f\<close> the address of a callback.\<close>

type_synonym fnptr = "nat option"

text \<open>
  The three character arrays \<open>name[MAXSTACK][MAXNAME]\<close>, \<open>value[MAXSTACK][MAXVALUE]\<close>
  and \<open>errbuf[MAXERRORBUFFER]\<close> are adjacent members of the structure and have
  alignment 1, so they occupy \<open>MEMSIZE\<close> consecutive bytes. The field \<open>chars\<close>
  is that block, addressed from the first byte of \<open>name\<close>: an index past the end of
  a row reaches the next row, and one past the end of an array reaches the next
  array, as it does in the compiled program. The integers \<open>stateIndex\<close>, \<open>stack\<close>,
  \<open>errbufIndex\<close> and \<open>numchars\<close> are never negative in the source and are modelled
  as naturals; \<open>allowComma\<close> and \<open>isSlash\<close> only ever hold 0 or 1.
  The field \<open>calls\<close> is not a member of the C structure: it records, in order, the
  callback invocations made on behalf of this slot.
\<close>

record parser_data_t =
  state :: pstate
  states :: "pstate list"
  stateIndex :: nat
  allowComma :: bool
  isSlash :: bool
  stack :: nat
  chars :: "nat \<Rightarrow> char"
  errbufIndex :: nat
  numchars :: nat
  onError :: fnptr
  onObjectStart :: fnptr
  onObjectComplete :: fnptr
  onArrayStart :: fnptr
  onArrayComplete :: fnptr
  onString :: fnptr
  onInteger :: fnptr
  calls :: "event list"

definition name_at :: "nat \<Rightarrow> nat \<Rightarrow> nat" where
  "name_at s i = s * MAXNAME + i"

definition value_at :: "nat \<Rightarrow> nat \<Rightarrow> nat" where
  "value_at s i = MAXSTACK * MAXNAME + s * MAXVALUE + i"

definition errbuf_at :: "nat \<Rightarrow> nat" where
  "errbuf_at i = MAXSTACK * MAXNAME + MAXSTACK * MAXVALUE + i"

abbreviation (input) MEMSIZE :: nat where
  "MEMSIZE \<equiv> MAXSTACK * MAXNAME + MAXSTACK * MAXVALUE + MAXERRORBUFFER"

text \<open>
  The C string that starts at address \<open>a\<close>, reading at most \<open>n\<close> bytes; \<open>cstring_at\<close>
  reads up to the end of the character block (the padding that follows \<open>errbuf\<close> is
  never written and is zero in static storage).
\<close>

fun cstring :: "(nat \<Rightarrow> char) \<Rightarrow> nat \<Rightarrow> nat \<Rightarrow> string" where
  "cstring m a 0 = []"
| "cstring m a (Suc n) = (if m a = NUL then [] else m a # cstring m (Suc a) n)"

definition cstring_at :: "(nat \<Rightarrow> char) \<Rightarrow> nat \<Rightarrow> string" where
  "cstring_at m a = cstring m a (MEMSIZE - a)"

definition strlen :: "(nat \<Rightarrow> char) \<Rightarrow> nat \<Rightarrow> nat" where
  "strlen m a = length (cstring_at m a)"

definition cur_name :: "parser_data_t \<Rightarrow> string" where
  "cur_name p = cstring_at (chars p) (name_at (stack p) 0)"

definition cur_value :: "parser_data_t \<Rightarrow> string" where
  "cur_value p = cstring_at (chars p) (value_at (stack p) 0)"

definition invoke :: "fnptr \<Rightarrow> event \<Rightarrow> parser_data_t \<Rightarrow> parser_data_t" where
  "invoke f e p = (case f of None \<Rightarrow> p | Some _ \<Rightarrow> p\<lparr>calls := calls p @ [e]\<rparr>)"

subsection \<open>Reset and error handling\<close>

definition jsonReset :: "parser_data_t \<Rightarrow> parser_data_t" where
  "jsonReset p =
     p\<lparr>allowComma := False,
       isSlash := False,
       state := STATE_NONE,
       stateIndex := 0,
       stack := 0,
       chars := (chars p)(name_at 0 0 := NUL, value_at 0 0 := NUL),
       errbufIndex := 0,
       numchars := 0\<rparr>"

text \<open>The copy loop of \<open>jsonError\<close>: \<open>n\<close> bytes of the ring, from \<open>start\<close>, wrapping.\<close>

fun ring_copy :: "(nat \<Rightarrow> char) \<Rightarrow> nat \<Rightarrow> nat \<Rightarrow> char list" where
  "ring_copy m start 0 = []"
| "ring_copy m start (Suc n) =
     m (errbuf_at start) #
     ring_copy m (if Suc start \<ge> MAXERRORBUFFER then 0 else Suc start) n"

definition locerrbuf :: "parser_data_t \<Rightarrow> string" where
  "locerrbuf p =
     (let len = (if numchars p \<ge> MAXERRORBUFFER then MAXERRORBUFFER else numchars p);
          start = int (errbufIndex p) - int len;
          start = (if start < 0 then start + int MAXERRORBUFFER else start)
      in takeWhile (\<lambda>c. c \<noteq> NUL) (ring_copy (chars p) (nat start) len))"

definition jsonError :: "int \<Rightarrow> parser_data_t \<Rightarrow> parser_data_t" where
  "jsonError err p =
     jsonReset (invoke (onError p) (CallError err (json_errors ! nat err) (locerrbuf p)) p)"

subsection \<open>Helpers\<close>

definition isWhiteSpace :: "char \<Rightarrow> bool" where
  "isWhiteSpace c \<longleftrightarrow> c = CHR '' '' \<or> c = CHR 0x0D \<or> c = CHR 0x0A \<or> c = CHR 0x09"

definition isSign :: "char \<Rightarrow> bool" where
  "isSign c \<longleftrightarrow> c = CHR ''-'' \<or> c = CHR ''+''"

definition isNum :: "char \<Rightarrow> bool" where
  "isNum c \<longleftrightarrow> (48::nat) \<le> of_char c \<and> of_char c \<le> (57::nat)"

definition isAlpha :: "char \<Rightarrow> bool" where
  "isAlpha c \<longleftrightarrow>
     ((97::nat) \<le> of_char c \<and> of_char c \<le> (122::nat)) \<or>
     ((65::nat) \<le> of_char c \<and> of_char c \<le> (90::nat))"

definition isValidNameChar :: "char \<Rightarrow> bool" where
  "isValidNameChar c \<longleftrightarrow> isAlpha c \<or> isNum c \<or> c = CHR ''_'' \<or> c = CHR ''+''"

definition appendName :: "char \<Rightarrow> parser_data_t \<Rightarrow> parser_data_t" where
  "appendName c p =
     (let len = strlen (chars p) (name_at (stack p) 0) in
      if len < MAXNAME
      then p\<lparr>chars := (chars p)(name_at (stack p) len := c,
                                 name_at (stack p) (len + 1) := NUL)\<rparr>
      else jsonError ERR_NAMETOOLONG p)"

definition appendValue :: "char \<Rightarrow> parser_data_t \<Rightarrow> parser_data_t" where
  "appendValue c p =
     (let len = strlen (chars p) (value_at (stack p) 0) in
      if len < MAXVALUE
      then p\<lparr>chars := (chars p)(value_at (stack p) len := c,
                                 value_at (stack p) (len + 1) := NUL)\<rparr>
      else jsonError ERR_VALUETOOLONG p)"

text \<open>The shared body of the cases \<open>STATE_INOBJECT\<close> and \<open>STATE_INARRAY\<close> of \<open>setState\<close>.\<close>

definition pushName :: "parser_data_t \<Rightarrow> parser_data_t" where
  "pushName p =
     (let p1 = p\<lparr>stack := stack p + 1\<rparr> in
      if stack p1 < MAXSTACK
      then p1\<lparr>chars := (chars p1)(name_at (stack p1) 0 := NUL)\<rparr>
      else jsonError ERR_INTERNAL p1)"

definition setState :: "pstate \<Rightarrow> parser_data_t \<Rightarrow> parser_data_t" where
  "setState st p =
     (let p1 = p\<lparr>state := st\<rparr> in
      case st of
        STATE_INNAME \<Rightarrow> p1\<lparr>chars := (chars p1)(name_at (stack p1) 0 := NUL)\<rparr>
      | STATE_TOVALUE \<Rightarrow> p1\<lparr>chars := (chars p1)(value_at (stack p1) 0 := NUL)\<rparr>
      | STATE_INOBJECT \<Rightarrow> pushName p1
      | STATE_INARRAY \<Rightarrow> pushName p1
      | _ \<Rightarrow> p1)"

definition toState :: "pstate \<Rightarrow> parser_data_t \<Rightarrow> parser_data_t" where
  "toState st p =
     (let p1 = p\<lparr>states := (states p)[stateIndex p := state p]\<rparr>;
          p2 = p1\<lparr>stateIndex := stateIndex p1 + 1\<rparr>
      in if stateIndex p2 < MAXSTATES then setState st p2 else jsonError ERR_INTERNAL p2)"

definition upState :: "parser_data_t \<Rightarrow> parser_data_t" where
  "upState p =
     (if stateIndex p > 0 then
        (let p1 = p\<lparr>stateIndex := stateIndex p - 1\<rparr>;
             p2 = p1\<lparr>state := states p1 ! stateIndex p1\<rparr>
         in if state p2 = STATE_INOBJECT \<or> state p2 = STATE_INARRAY then
              (if stack p2 > 0
               then p2\<lparr>stack := stack p2 - 1, allowComma := True\<rparr>
               else jsonError ERR_INTERNAL p2)
            else if state p2 = STATE_NONE then
              p2\<lparr>chars := (chars p2)(name_at (stack p2) 0 := NUL)\<rparr>
            else p2)
      else jsonError ERR_INTERNAL p)"

subsection \<open>The integer conversion\<close>

text \<open>
  Modelled from the spec: \<open>Atoi\<close> is declared in \<open>atoi.h\<close>, which is not among the
  sources. The specification describes it as a conversion of a bounded ASCII
  digit/sign string to a signed integer: an optional sign followed by decimal digits.
\<close>

definition digitsValue :: "string \<Rightarrow> int" where
  "digitsValue s = foldl (\<lambda>a c. 10 * a + (int (of_char c) - 48)) 0 (takeWhile isNum s)"

definition Atoi :: "string \<Rightarrow> int" where
  "Atoi s =
     (case s of
        [] \<Rightarrow> 0
      | c # r \<Rightarrow>
          if c = CHR ''-'' then - digitsValue r
          else if c = CHR ''+'' then digitsValue r
          else digitsValue s)"

subsection \<open>Eating a character\<close>

text \<open>
  One pass through the \<open>switch\<close> of \<open>jsonEatNoLog\<close>: the new structure and the value
  of the local \<open>again\<close>.
\<close>

definition dispatch :: "char \<Rightarrow> parser_data_t \<Rightarrow> bool \<times> parser_data_t" where
  "dispatch c p =
     (case state p of
        STATE_NONE \<Rightarrow>
          if c = CHR ''{'' then
            (False,
             (toState STATE_TONAME
               (toState STATE_INOBJECT
                 (invoke (onObjectStart p) (CallObjectStart (cur_name p)) p)))
             \<lparr>allowComma := False\<rparr>)
          else if c = DQUOTE then (False, toState STATE_INNAME p)
          else (False, p)
      | STATE_INOBJECT \<Rightarrow>
          if c = CHR ''}'' then
            (False, upState (invoke (onObjectComplete p) (CallObjectComplete (cur_name p)) p))
          else if c = DQUOTE then (False, toState STATE_INNAME p)
          else if c = CHR '','' \<and> allowComma p then
            (False, toState STATE_TONAME (p\<lparr>allowComma := False\<rparr>))
          else if \<not> isWhiteSpace c then (False, jsonError ERR_PARSE_OBJECT p)
          else (False, p)
      | STATE_TONAME \<Rightarrow>
          if c = DQUOTE then (False, setState STATE_INNAME p)
          else if \<not> isWhiteSpace c then (False, jsonError ERR_PARSE_NAME p)
          else (False, p)
      | STATE_INNAME \<Rightarrow>
          if c = DQUOTE then (False, setState STATE_TOCOLUMN p)
          else if isValidNameChar c then (False, appendName c p)
          else (False, jsonError ERR_PARSE_ILLNAME p)
      | STATE_TOCOLUMN \<Rightarrow>
          if c = CHR '':'' then (False, setState STATE_TOVALUE p)
          else if \<not> isWhiteSpace c then (False, jsonError ERR_PARSE_ASSIGNMENT p)
          else (False, p)
      | STATE_TOVALUE \<Rightarrow>
          if c = DQUOTE then (False, setState STATE_INSTRING (p\<lparr>isSlash := False\<rparr>))
          else if isNum c \<or> isSign c then (False, setState STATE_INNUM (appendValue c p))
          else if c = CHR ''['' then
            (False,
             toState STATE_TONAME
               (setState STATE_INARRAY
                 (invoke (onArrayStart p) (CallArrayStart (cur_name p)) p)))
          else if c = CHR ''{'' then
            (False,
             toState STATE_TONAME
               (setState STATE_INOBJECT
                 (invoke (onObjectStart p) (CallObjectStart (cur_name p)) p)))
          else if \<not> isWhiteSpace c then (False, jsonError ERR_PARSE_VALUE p)
          else (False, p)
      | STATE_INSTRING \<Rightarrow>
          if \<not> isSlash p \<and> c = BACKSLASH then (False, p\<lparr>isSlash := True\<rparr>)
          else if isSlash p then
            (False, appendValue c (appendValue BACKSLASH (p\<lparr>isSlash := False\<rparr>)))
          else if c = DQUOTE then
            (False,
             setState STATE_OUTVALUE
               (invoke (onString p) (CallString (cur_name p) (cur_value p)) p))
          else (False, appendValue c p)
      | STATE_INNUM \<Rightarrow>
          if isNum c then (False, appendValue c p)
          else
            (True,
             setState STATE_OUTVALUE
               (invoke (onInteger p) (CallInteger (cur_name p) (Atoi (cur_value p))) p))
      | STATE_INARRAY \<Rightarrow>
          if c = CHR '']'' then
            (False, upState (invoke (onArrayComplete p) (CallArrayComplete (cur_name p)) p))
          else if c = DQUOTE then (False, toState STATE_INNAME p)
          else if c = CHR '','' \<and> allowComma p then
            (False, toState STATE_TONAME (p\<lparr>allowComma := False\<rparr>))
          else if \<not> isWhiteSpace c then (False, jsonError ERR_PARSE_ARRAY p)
          else (False, p)
      | STATE_OUTVALUE \<Rightarrow>
          if \<not> isWhiteSpace c then
            (if c = CHR '','' then (False, toState STATE_TONAME p)
             else (True, upState p))
          else (False, p))"

text \<open>
  The rank that decreases on every re-dispatch: a number is closed at most once, and
  every other re-dispatch follows a pop of the state stack or a reset.
\<close>

definition rank :: "parser_data_t \<Rightarrow> nat" where
  "rank p =
     3 * stateIndex p +
     (case state p of STATE_INNUM \<Rightarrow> 2 | STATE_OUTVALUE \<Rightarrow> 1 | _ \<Rightarrow> 0)"

function jsonEatNoLog :: "char \<Rightarrow> parser_data_t \<Rightarrow> parser_data_t" where
  "jsonEatNoLog c p =
     (case dispatch c p of (again, q) \<Rightarrow> if again then jsonEatNoLog c q else q)"
  by pat_completeness auto
termination
proof (relation "measure (\<lambda>(c, p). rank p)")
  show "wf (measure (\<lambda>(c, p). rank p))" by simp
next
  fix c :: char and p q :: parser_data_t and again :: bool
  assume aq: "(again, q) = dispatch c p" and again: "again"
  have err: "rank (jsonError e r) = 0" for e r
    by (simp add: rank_def jsonError_def jsonReset_def invoke_def split: option.splits)
  have up: "rank (upState r) < rank r" if "state r = STATE_OUTVALUE" for r
    using that
    by (auto simp: upState_def Let_def err) (auto simp: rank_def split: pstate.splits)
  have d: "dispatch c p = (True, q)" using aq again by simp
  have "rank q < rank p"
  proof (cases "state p")
    case STATE_INNUM
    with d show ?thesis
      by (auto simp: dispatch_def setState_def invoke_def rank_def Let_def
               split: if_splits option.splits)
  next
    case STATE_OUTVALUE
    with d show ?thesis
      by (auto simp: dispatch_def up split: if_splits)
  qed (use d in \<open>auto simp: dispatch_def split: if_splits\<close>)
  then show "((c, q), (c, p)) \<in> measure (\<lambda>(c, p). rank p)" by simp
qed

declare jsonEatNoLog.simps [simp del]

definition jsonEat :: "char \<Rightarrow> parser_data_t \<Rightarrow> parser_data_t" where
  "jsonEat c p =
     (let p1 = p\<lparr>numchars := numchars p + 1\<rparr>;
          p2 = (if \<not> isWhiteSpace c then
                  (let p3 = p1\<lparr>chars := (chars p1)(errbuf_at (errbufIndex p1) := c),
                               errbufIndex := errbufIndex p1 + 1\<rparr>
                   in if errbufIndex p3 \<ge> MAXERRORBUFFER then p3\<lparr>errbufIndex := 0\<rparr> else p3)
                else p1)
      in jsonEatNoLog c p2)"

text \<open>The caller's loop: the characters of a string, fed one at a time.\<close>

fun feed :: "string \<Rightarrow> parser_data_t \<Rightarrow> parser_data_t" where
  "feed [] p = p"
| "feed (c # cs) p = feed cs (jsonEat c p)"

subsection \<open>Registration\<close>

definition jsonSetOnError :: "fnptr \<Rightarrow> parser_data_t \<Rightarrow> parser_data_t" where
  "jsonSetOnError oe p = p\<lparr>onError := oe\<rparr>"

definition jsonSetOnObjectStart :: "fnptr \<Rightarrow> parser_data_t \<Rightarrow> parser_data_t" where
  "jsonSetOnObjectStart oos p = p\<lparr>onObjectStart := oos\<rparr>"

definition jsonSetOnObjectComplete :: "fnptr \<Rightarrow> parser_data_t \<Rightarrow> parser_data_t" where
  "jsonSetOnObjectComplete oo p = p\<lparr>onObjectComplete := oo\<rparr>"

definition jsonSetOnArrayStart :: "fnptr \<Rightarrow> parser_data_t \<Rightarrow> parser_data_t" where
  "jsonSetOnArrayStart oas p = p\<lparr>onArrayStart := oas\<rparr>"

definition jsonSetOnArrayComplete :: "fnptr \<Rightarrow> parser_data_t \<Rightarrow> parser_data_t" where
  "jsonSetOnArrayComplete oa p = p\<lparr>onArrayComplete := oa\<rparr>"

definition jsonSetOnString :: "fnptr \<Rightarrow> parser_data_t \<Rightarrow> parser_data_t" where
  "jsonSetOnString os p = p\<lparr>onString := os\<rparr>"

definition jsonSetOnInteger :: "fnptr \<Rightarrow> parser_data_t \<Rightarrow> parser_data_t" where
  "jsonSetOnInteger oi p = p\<lparr>onInteger := oi\<rparr>"

text \<open>
  A slot as static storage initialises it (every byte zero, every pointer \<open>NULL\<close>),
  and the slot a caller starts from: all seven callbacks registered, then reset.
\<close>

definition zeroSlot :: parser_data_t where
  "zeroSlot =
     \<lparr>state = STATE_NONE, states = replicate MAXSTATES STATE_NONE, stateIndex = 0,
      allowComma = False, isSlash = False, stack = 0, chars = (\<lambda>_. NUL),
      errbufIndex = 0, numchars = 0,
      onError = None, onObjectStart = None, onObjectComplete = None,
      onArrayStart = None, onArrayComplete = None, onString = None, onInteger = None,
      calls = []\<rparr>"

definition freshSlot :: parser_data_t where
  "freshSlot =
     jsonReset
       (jsonSetOnInteger (Some 7)
         (jsonSetOnString (Some 6)
           (jsonSetOnArrayComplete (Some 5)
             (jsonSetOnArrayStart (Some 4)
               (jsonSetOnObjectComplete (Some 3)
                 (jsonSetOnObjectStart (Some 2)
                   (jsonSetOnError (Some 1) zeroSlot)))))))"

subsection \<open>The pool of parsers\<close>

text \<open>
  Every function above reads and writes the selected structure through the global
  pointer \<open>parser\<close>; it is modelled as a function on that structure, and \<open>selected\<close>
  applies it to the slot the pointer designates. The pointer always holds the address
  of an element of \<open>parserData\<close> and is modelled by the index of that element. The
  field \<open>stdout\<close> collects what the switching functions print.
\<close>

record world =
  parserData :: "parser_data_t list"
  parser :: nat
  stdout :: "string list"

definition selected :: "(parser_data_t \<Rightarrow> parser_data_t) \<Rightarrow> world \<Rightarrow> world" where
  "selected f w = w\<lparr>parserData := (parserData w)[parser w := f (parserData w ! parser w)]\<rparr>"

definition jsonGetSelected :: "world \<Rightarrow> nat" where
  "jsonGetSelected w =
     (case find (\<lambda>i. parser w = i) [0..<MAXPARSERS] of Some i \<Rightarrow> i | None \<Rightarrow> 0)"

definition jsonSelectNext :: "world \<Rightarrow> world" where
  "jsonSelectNext w =
     (let p = jsonGetSelected w in
      if p < MAXPARSERS - 1 then w\<lparr>parser := p + 1\<rparr>
      else w\<lparr>stdout := stdout w @ [''Error: parser overflow'' @ [CHR 0x0A]]\<rparr>)"

definition jsonSelectPrev :: "world \<Rightarrow> world" where
  "jsonSelectPrev w =
     (let p = jsonGetSelected w in
      if p > 0 then w\<lparr>parser := p - 1\<rparr>
      else w\<lparr>stdout := stdout w @ [''Error: parser underflow'' @ [CHR 0x0A]]\<rparr>)"

text \<open>The program at start-up: both slots zero, the first one selected.\<close>

definition initialWorld :: world where
  "initialWorld = \<lparr>parserData = replicate MAXPARSERS zeroSlot, parser = 0, stdout = []\<rparr>"

subsection \<open>Auxiliary notions\<close>

text \<open>
  The first statements of \<open>jsonEat\<close>, which count the character and log it in the
  ring, as a function of their own; \<open>jsonEat\<close> is \<open>jsonEatNoLog\<close> after them.
\<close>

definition logged :: "char \<Rightarrow> parser_data_t \<Rightarrow> parser_data_t" where
  "logged c p =
     (if isWhiteSpace c then p\<lparr>numchars := numchars p + 1\<rparr>
      else p\<lparr>numchars := numchars p + 1,
             chars := (chars p)(errbuf_at (errbufIndex p) := c),
             errbufIndex :=
               (if errbufIndex p + 1 \<ge> MAXERRORBUFFER then 0 else errbufIndex p + 1)\<rparr>)"

text \<open>Everything of a slot but its character block and the two ring counters.\<close>

definition control ::
  "parser_data_t \<Rightarrow>
   pstate \<times> pstate list \<times> nat \<times> bool \<times> bool \<times> nat \<times>
   (fnptr \<times> fnptr \<times> fnptr \<times> fnptr \<times> fnptr \<times> fnptr \<times> fnptr) \<times> event list" where
  "control p =
     (state p, states p, stateIndex p, allowComma p, isSlash p, stack p,
      (onError p, onObjectStart p, onObjectComplete p, onArrayStart p, onArrayComplete p,
       onString p, onInteger p), calls p)"

text \<open>
  The body of a string value, as it stands between the quotes of the input: ordinary
  characters (no quote, no backslash, no NUL) and the two escape sequences
  backslash-quote and backslash-backslash.
\<close>

fun escapes_ok :: "string \<Rightarrow> bool" where
  "escapes_ok [] = True"
| "escapes_ok [c] = (c \<noteq> BACKSLASH \<and> c \<noteq> DQUOTE \<and> c \<noteq> NUL)"
| "escapes_ok (c # d # r) =
     (if c = BACKSLASH then (d = DQUOTE \<or> d = BACKSLASH) \<and> escapes_ok r
      else c \<noteq> DQUOTE \<and> c \<noteq> NUL \<and> escapes_ok (d # r))"

text \<open>
  A step from \<open>p\<close> to \<open>q\<close> that reported the error \<open>e\<close> through the error callback,
  as its only call, and left the slot reset: idle, both stacks empty, both flags clear.
\<close>

definition aborted :: "int \<Rightarrow> parser_data_t \<Rightarrow> parser_data_t \<Rightarrow> bool" where
  "aborted e p q \<longleftrightarrow>
     (\<exists>ctx. calls q = calls p @ [CallError e (json_errors ! nat e) ctx]) \<and>
     state q = STATE_NONE \<and> stateIndex q = 0 \<and> stack q = 0 \<and>
     \<not> allowComma q \<and> \<not> isSlash q"

text \<open>
  A slot on whose behalf the string-value callback has not been called, and such a slot
  in one of the three states in which the parser looks for the start of a name.
\<close>

definition no_string_call :: "parser_data_t \<Rightarrow> bool" where
  "no_string_call p \<longleftrightarrow> (\<forall>n v. CallString n v \<notin> set (calls p))"

definition seeking :: "parser_data_t \<Rightarrow> bool" where
  "seeking p \<longleftrightarrow>
     (state p = STATE_NONE \<or> state p = STATE_INNAME \<or> state p = STATE_TONAME) \<and>
     no_string_call p"

text \<open>A slot in which a comma would be refused for want of the flag.\<close>

definition comma_refused :: "parser_data_t \<Rightarrow> bool" where
  "comma_refused p \<longleftrightarrow> (state p = STATE_INOBJECT \<or> state p = STATE_INARRAY) \<and> \<not> allowComma p"

section \<open>C strings in the character block\<close>

lemma cstring_length_le: "length (cstring m a n) \<le> n"
  by (induction n arbitrary: a) auto

lemma cstring_no_NUL: "NUL \<notin> set (cstring m a n)"
  by (induction n arbitrary: a) auto

lemma cstring_nth: "i < length (cstring m a n) \<Longrightarrow> cstring m a n ! i = m (a + i)"
proof (induction n arbitrary: a i)
  case 0
  then show ?case by simp
next
  case (Suc n)
  then show ?case by (cases i) (auto split: if_splits)
qed

lemma cstring_terminator:
  "length (cstring m a n) < n \<Longrightarrow> m (a + length (cstring m a n)) = NUL"
proof (induction n arbitrary: a)
  case 0
  then show ?case by simp
next
  case (Suc n)
  then show ?case using Suc.IH[of "Suc a"] by (auto split: if_splits)
qed

lemma cstring_eqI:
  assumes "length s < n" "\<And>i. i < length s \<Longrightarrow> m (a + i) = s ! i"
    "NUL \<notin> set s" "m (a + length s) = NUL"
  shows "cstring m a n = s"
  using assms
proof (induction n arbitrary: a s)
  case 0
  then show ?case by simp
next
  case (Suc n)
  show ?case
  proof (cases s)
    case Nil
    with Suc.prems show ?thesis by simp
  next
    case (Cons x xs)
    have hd: "m a = x" "x \<noteq> NUL"
      using Suc.prems(2)[of 0] Suc.prems(3) Cons by auto
    have "cstring m (Suc a) n = xs"
    proof (rule Suc.IH)
      show "length xs < n" using Suc.prems(1) Cons by simp
      show "m (Suc a + i) = xs ! i" if "i < length xs" for i
        using Suc.prems(2)[of "Suc i"] that Cons by simp
      show "NUL \<notin> set xs" using Suc.prems(3) Cons by simp
      show "m (Suc a + length xs) = NUL" using Suc.prems(4) Cons by simp
    qed
    with hd Cons show ?thesis by simp
  qed
qed

lemma cstring_frame:
  "(\<And>i. i \<le> length (cstring m a n) \<Longrightarrow> m' (a + i) = m (a + i)) \<Longrightarrow>
   cstring m' a n = cstring m a n"
proof (induction n arbitrary: a)
  case 0
  then show ?case by simp
next
  case (Suc n)
  have h0: "m' a = m a" using Suc.prems[of 0] by simp
  show ?case
  proof (cases "m a = NUL")
    case True
    with h0 show ?thesis by simp
  next
    case False
    have "cstring m' (Suc a) n = cstring m (Suc a) n"
    proof (rule Suc.IH)
      fix i assume "i \<le> length (cstring m (Suc a) n)"
      then show "m' (Suc a + i) = m (Suc a + i)"
        using Suc.prems[of "Suc i"] False by simp
    qed
    with h0 False show ?thesis by simp
  qed
qed

lemma cstring_at_upd_frame:
  "a < b \<or> b + length (cstring_at m b) < a \<Longrightarrow> cstring_at (m(a := x)) b = cstring_at m b"
  unfolding cstring_at_def by (rule cstring_frame) auto

lemma cstring_at_Nil: "m b = NUL \<Longrightarrow> cstring_at m b = []"
  unfolding cstring_at_def by (cases "970 - b") auto

lemma cstring_at_append:
  assumes "cstring_at m a = s" "a + length s + 1 < MEMSIZE" "c \<noteq> NUL"
  shows "cstring_at (m(a + length s := c, a + length s + 1 := NUL)) a = s @ [c]"
  unfolding cstring_at_def
proof (rule cstring_eqI)
  let ?m = "m(a + length s := c, a + length s + 1 := NUL)"
  have s: "cstring m a (970 - a) = s" using assms(1) by (simp add: cstring_at_def)
  show "length (s @ [c]) < MEMSIZE - a" using assms(2) by simp
  show "NUL \<notin> set (s @ [c])" using cstring_no_NUL[of m a "970 - a"] s assms(3) by auto
  show "?m (a + length (s @ [c])) = NUL" by simp
  fix i assume i: "i < length (s @ [c])"
  show "?m (a + i) = (s @ [c]) ! i"
  proof (cases "i < length s")
    case True
    then show ?thesis using cstring_nth[of i m a "970 - a"] s by (simp add: nth_append)
  next
    case False
    with i have "i = length s" by simp
    then show ?thesis by simp
  qed
qed

lemma jsonEat_logged: "jsonEat c p = jsonEatNoLog c (logged c p)"
  by (simp add: jsonEat_def logged_def Let_def)

lemma isValidNameChar_plain:
  "isValidNameChar c \<Longrightarrow> c \<noteq> NUL \<and> c \<noteq> DQUOTE \<and> \<not> isWhiteSpace c"
  by (auto simp: isValidNameChar_def isAlpha_def isNum_def isWhiteSpace_def)

lemma jsonEat_name_char:
  assumes "state p = STATE_INNAME" "isValidNameChar c" "length (cur_name p) < MAXNAME"
    "stack p < MAXSTACK" "errbufIndex p < MAXERRORBUFFER"
  shows "jsonEat c p =
     p\<lparr>numchars := numchars p + 1,
       chars := (chars p)(errbuf_at (errbufIndex p) := c,
                          name_at (stack p) (length (cur_name p)) := c,
                          name_at (stack p) (length (cur_name p) + 1) := NUL),
       errbufIndex := (if errbufIndex p + 1 \<ge> 20 then 0 else errbufIndex p + 1)\<rparr>"
proof -
  have fr: "cstring_at ((chars p)(errbuf_at (errbufIndex p) := c)) (name_at (stack p) 0)
            = cur_name p"
    unfolding cur_name_def
    by (rule cstring_at_upd_frame) (use assms in \<open>simp add: errbuf_at_def name_at_def cur_name_def\<close>)
  show ?thesis
    using assms isValidNameChar_plain[OF assms(2)]
    by (simp add: jsonEat_logged logged_def jsonEatNoLog.simps dispatch_def appendName_def
        strlen_def fr Let_def)
qed


lemma control_simps:
  "control q = control p \<Longrightarrow> state q = state p"
  "control q = control p \<Longrightarrow> states q = states p"
  "control q = control p \<Longrightarrow> stateIndex q = stateIndex p"
  "control q = control p \<Longrightarrow> allowComma q = allowComma p"
  "control q = control p \<Longrightarrow> isSlash q = isSlash p"
  "control q = control p \<Longrightarrow> stack q = stack p"
  "control q = control p \<Longrightarrow> onError q = onError p"
  "control q = control p \<Longrightarrow> onObjectStart q = onObjectStart p"
  "control q = control p \<Longrightarrow> onObjectComplete q = onObjectComplete p"
  "control q = control p \<Longrightarrow> onArrayStart q = onArrayStart p"
  "control q = control p \<Longrightarrow> onArrayComplete q = onArrayComplete p"
  "control q = control p \<Longrightarrow> onString q = onString p"
  "control q = control p \<Longrightarrow> onInteger q = onInteger p"
  "control q = control p \<Longrightarrow> calls q = calls p"
  by (simp_all add: control_def)

lemma name_char_effect:
  assumes "state p = STATE_INNAME" "isValidNameChar c" "length (cur_name p) < MAXNAME"
    "stack p < MAXSTACK" "errbufIndex p < MAXERRORBUFFER"
  shows "control (jsonEat c p) = control p"
    and "cur_name (jsonEat c p) = cur_name p @ [c]"
    and "errbufIndex (jsonEat c p) < MAXERRORBUFFER"
    and "\<And>a. a < 950 \<Longrightarrow>
           a < name_at (stack p) 0 \<or> name_at (stack p) (length (cur_name p) + 1) < a \<Longrightarrow>
           chars (jsonEat c p) a = chars p a"
proof -
  note eq = jsonEat_name_char[OF assms]
  show "control (jsonEat c p) = control p" by (simp add: eq control_def)
  show "errbufIndex (jsonEat c p) < MAXERRORBUFFER" using assms(5) by (simp add: eq)
  have fr: "cstring_at ((chars p)(errbuf_at (errbufIndex p) := c)) (name_at (stack p) 0)
            = cur_name p"
    unfolding cur_name_def
    by (rule cstring_at_upd_frame) (use assms in \<open>simp add: errbuf_at_def name_at_def cur_name_def\<close>)
  have nat: "name_at (stack p) k = name_at (stack p) 0 + k" for k by (simp add: name_at_def)
  have "cstring_at ((chars p)(errbuf_at (errbufIndex p) := c,
           name_at (stack p) 0 + length (cur_name p) := c,
           name_at (stack p) 0 + length (cur_name p) + 1 := NUL)) (name_at (stack p) 0)
        = cur_name p @ [c]"
    by (rule cstring_at_append[OF fr])
       (use assms isValidNameChar_plain[OF assms(2)] in \<open>simp_all add: name_at_def\<close>)
  then show "cur_name (jsonEat c p) = cur_name p @ [c]"
    by (simp add: eq cur_name_def nat[of "length _"] nat[of "Suc _"])
  fix a :: nat
  assume "a < 950" "a < name_at (stack p) 0 \<or> name_at (stack p) (length (cur_name p) + 1) < a"
  then show "chars (jsonEat c p) a = chars p a"
    by (auto simp: eq name_at_def errbuf_at_def)
qed

lemma feed_append: "feed (xs @ ys) p = feed ys (feed xs p)"
  by (induction xs arbitrary: p) auto

lemma feed_name_chars:
  assumes "state p = STATE_INNAME" "\<forall>c\<in>set cs. isValidNameChar c"
    "length (cur_name p) + length cs \<le> MAXNAME"
    "stack p < MAXSTACK" "errbufIndex p < MAXERRORBUFFER"
  shows "control (feed cs p) = control p \<and>
         cur_name (feed cs p) = cur_name p @ cs \<and>
         errbufIndex (feed cs p) < MAXERRORBUFFER \<and>
         (\<forall>a. a < 950 \<longrightarrow>
           a < name_at (stack p) 0 \<or> name_at (stack p) (length (cur_name p) + length cs) < a \<longrightarrow>
           chars (feed cs p) a = chars p a)"
  using assms
proof (induction cs arbitrary: p)
  case Nil
  then show ?case by simp
next
  case (Cons c cs)
  let ?q = "jsonEat c p"
  have c: "isValidNameChar c" and len: "length (cur_name p) < MAXNAME"
    using Cons.prems by auto
  note eff = name_char_effect[OF Cons.prems(1) c len Cons.prems(4,5)]
  have q: "state ?q = STATE_INNAME" "stack ?q = stack p"
    using control_simps[OF eff(1)] Cons.prems(1) by auto
  have IH: "control (feed cs ?q) = control ?q \<and>
         cur_name (feed cs ?q) = cur_name ?q @ cs \<and>
         errbufIndex (feed cs ?q) < MAXERRORBUFFER \<and>
         (\<forall>a. a < 950 \<longrightarrow>
           a < name_at (stack ?q) 0 \<or> name_at (stack ?q) (length (cur_name ?q) + length cs) < a \<longrightarrow>
           chars (feed cs ?q) a = chars ?q a)"
    by (rule Cons.IH) (use Cons.prems q eff(2,3) in auto)
  have "chars (feed cs ?q) a = chars p a"
    if "a < 950" "a < name_at (stack p) 0 \<or> name_at (stack p) (length (cur_name p) + length (c # cs)) < a"
    for a
  proof -
    have "chars (feed cs ?q) a = chars ?q a"
      using IH that by (auto simp: q eff(2))
    also have "chars ?q a = chars p a"
      by (rule eff(4)) (use that in \<open>auto simp: name_at_def\<close>)
    finally show ?thesis .
  qed
  with IH eff(1,2) show ?case by simp
qed

lemma cstring_at_Cons:
  "m b \<noteq> NUL \<Longrightarrow> b < 970 \<Longrightarrow> cstring_at m b = m b # cstring_at m (Suc b)"
proof -
  assume a: "m b \<noteq> NUL" "b < 970"
  then have e: "MEMSIZE - b = Suc (MEMSIZE - Suc b)" by arith
  show ?thesis unfolding cstring_at_def e using a by simp
qed

lemmas sym_defs =
  jsonEat_logged logged_def jsonEatNoLog.simps
  dispatch_def toState_def setState_def upState_def pushName_def appendName_def
  appendValue_def jsonError_def jsonReset_def invoke_def cur_name_def cur_value_def
  strlen_def name_at_def value_at_def errbuf_at_def isWhiteSpace_def isNum_def isSign_def
  isAlpha_def isValidNameChar_def Atoi_def digitsValue_def Let_def
  cstring_at_upd_frame cstring_at_Nil cstring_at_Cons

lemma close_integer_field:
  assumes "state q = STATE_INNAME" "stack q = 1" "stateIndex q = 2"
    "states q ! 1 = STATE_INOBJECT" "states q ! 0 = STATE_NONE"
    "onInteger q = Some oi" "onObjectComplete q = Some oc"
    "errbufIndex q < MAXERRORBUFFER"
    "cur_name q = nm" "length nm \<le> MAXNAME" "chars q 0 = NUL"
  shows \<open>calls (feed ''":1}'' q) = calls q @ [CallInteger nm 1, CallObjectComplete ''''] \<and>
         state (feed ''":1}'' q) = STATE_NONE\<close>
  using assms
  by (simp add: sym_defs)

section \<open>Evaluation on concrete inputs\<close>

lemma cstring_unfold:
  "0 < n \<Longrightarrow> cstring m a n = (if m a = NUL then [] else m a # cstring m (Suc a) (n - 1))"
  by (cases n) auto

lemmas eval_defs =
  freshSlot_def zeroSlot_def jsonReset_def jsonEat_def jsonEatNoLog.simps
  dispatch_def toState_def setState_def upState_def pushName_def appendName_def
  appendValue_def jsonError_def invoke_def cur_name_def cur_value_def cstring_at_def
  strlen_def name_at_def value_at_def errbuf_at_def isWhiteSpace_def isNum_def isSign_def
  isAlpha_def isValidNameChar_def Atoi_def digitsValue_def locerrbuf_def json_errors_def
  jsonSetOnError_def jsonSetOnObjectStart_def jsonSetOnObjectComplete_def
  jsonSetOnArrayStart_def jsonSetOnArrayComplete_def jsonSetOnString_def
  jsonSetOnInteger_def cstring_unfold Let_def

subsection \<open>A scalar field\<close>

text \<open>
  C7. Feeding the characters of \<open>{"a":1}\<close> to a freshly reset slot with all callbacks
  registered makes exactly the calls object-start(""), integer-value("a", 1),
  object-complete(""), in that order; the error callback is not among them.
\<close>

theorem scalar_field_calls:
  \<open>calls (feed ''{"a":1}'' freshSlot) =
     [CallObjectStart '''', CallInteger ''a'' 1, CallObjectComplete '''']\<close>
  by (simp add: eval_defs)

subsection \<open>An array of scalars\<close>

lemma array_of_scalars_run:
  \<open>calls (feed ''{"a":[1,2,3]}'' freshSlot) =
     [CallObjectStart '''', CallArrayStart ''a'',
      CallError ERR_PARSE_NAME ''parsing name'' ''{"a":[1'']\<close>
  \<open>state (feed ''{"a":[1,2,3]}'' freshSlot) = STATE_NONE\<close>
  by (simp_all add: eval_defs)

text \<open>
  C1, as stated, fails: the calls made for \<open>{"a":[1,2,3]}\<close> are not object-start(""),
  array-start("a"), integer-value("a",1), integer-value("a",2), integer-value("a",3),
  array-complete("a"), object-complete("").
\<close>

theorem array_of_scalars_counterexample:
  \<open>calls (feed ''{"a":[1,2,3]}'' freshSlot) \<noteq>
     [CallObjectStart '''', CallArrayStart ''a'', CallInteger ''a'' 1, CallInteger ''a'' 2,
      CallInteger ''a'' 3, CallArrayComplete ''a'', CallObjectComplete '''']\<close>
  unfolding array_of_scalars_run by simp

text \<open>
  C1, amended. After \<open>[\<close> the parser expects a quoted name, as it does after \<open>{\<close>.
  Feeding \<open>{"a":[1,2,3]}\<close> to a freshly reset slot with all callbacks registered makes
  exactly the calls object-start(""), array-start("a") and then error with the code
  of "parsing name" (5) at the character \<open>1\<close>; the slot is reset, the remaining
  characters are discarded in the idle state, and no integer-value, array-complete or
  object-complete call is made.
\<close>

theorem array_of_scalars_calls:
  \<open>calls (feed ''{"a":[1,2,3]}'' freshSlot) =
     [CallObjectStart '''', CallArrayStart ''a'',
      CallError ERR_PARSE_NAME ''parsing name'' ''{"a":[1''] \<and>
   state (feed ''{"a":[1,2,3]}'' freshSlot) = STATE_NONE\<close>
  unfolding array_of_scalars_run by simp

section \<open>Field names and the length limit\<close>

lemma cstring_upd_mono:
  "x \<noteq> NUL \<Longrightarrow> length (cstring m a n) \<le> length (cstring (m(b := x)) a n)"
  by (induction n arbitrary: a) auto

lemma name_char_overflow:
  assumes "state p = STATE_INNAME" "isValidNameChar c" "MAXNAME \<le> length (cur_name p)"
    "onError p = Some h"
  shows "\<exists>ctx. calls (jsonEat c p) =
           calls p @ [CallError ERR_NAMETOOLONG ''name too long'' ctx]"
    and "state (jsonEat c p) = STATE_NONE" and "stateIndex (jsonEat c p) = 0"
    and "stack (jsonEat c p) = 0" and "\<not> allowComma (jsonEat c p)"
    and "\<not> isSlash (jsonEat c p)"
proof -
  have c: "c \<noteq> NUL" "c \<noteq> DQUOTE" "\<not> isWhiteSpace c"
    using isValidNameChar_plain[OF assms(2)] by auto
  have "length (cur_name p) \<le>
        length (cstring_at ((chars p)(errbuf_at (errbufIndex p) := c)) (name_at (stack p) 0))"
    unfolding cur_name_def cstring_at_def by (rule cstring_upd_mono[OF c(1)])
  with assms(3) have full:
    "\<not> length (cstring_at ((chars p)(errbuf_at (errbufIndex p) := c)) (name_at (stack p) 0)) < 30"
    by simp
  have eq: "jsonEat c p = jsonError ERR_NAMETOOLONG (logged c p)"
    using assms(1,2) c full
    by (simp add: jsonEat_logged logged_def jsonEatNoLog.simps dispatch_def appendName_def
        strlen_def Let_def)
  show "\<exists>ctx. calls (jsonEat c p) =
           calls p @ [CallError ERR_NAMETOOLONG ''name too long'' ctx]"
    using assms(4) c
    by (simp add: eq jsonError_def jsonReset_def invoke_def logged_def json_errors_def)
  show "state (jsonEat c p) = STATE_NONE" "stateIndex (jsonEat c p) = 0"
    "stack (jsonEat c p) = 0" "\<not> allowComma (jsonEat c p)" "\<not> isSlash (jsonEat c p)"
    by (simp_all add: eq jsonError_def jsonReset_def invoke_def split: option.splits)
qed

lemma open_field_name:
  \<open>state (feed ''{"'' freshSlot) = STATE_INNAME\<close>
  \<open>stack (feed ''{"'' freshSlot) = 1\<close>
  \<open>stateIndex (feed ''{"'' freshSlot) = 2\<close>
  \<open>states (feed ''{"'' freshSlot) ! 1 = STATE_INOBJECT\<close>
  \<open>states (feed ''{"'' freshSlot) ! 0 = STATE_NONE\<close>
  \<open>onInteger (feed ''{"'' freshSlot) = Some 7\<close>
  \<open>onObjectComplete (feed ''{"'' freshSlot) = Some 3\<close>
  \<open>onError (feed ''{"'' freshSlot) = Some 1\<close>
  \<open>errbufIndex (feed ''{"'' freshSlot) = 2\<close>
  \<open>cur_name (feed ''{"'' freshSlot) = ''''\<close>
  \<open>chars (feed ''{"'' freshSlot) 0 = NUL\<close>
  \<open>calls (feed ''{"'' freshSlot) = [CallObjectStart '''']\<close>
  by (simp_all add: eval_defs)

lemma long_name_state:
  assumes "\<forall>c\<in>set nm. isValidNameChar c" "length nm \<le> MAXNAME"
  shows \<open>control (feed (''{"'' @ nm) freshSlot) = control (feed ''{"'' freshSlot)\<close>
    and \<open>cur_name (feed (''{"'' @ nm) freshSlot) = nm\<close>
    and \<open>errbufIndex (feed (''{"'' @ nm) freshSlot) < MAXERRORBUFFER\<close>
    and \<open>chars (feed (''{"'' @ nm) freshSlot) 0 = NUL\<close>
proof -
  let ?p = \<open>feed ''{"'' freshSlot\<close>
  have f: "control (feed nm ?p) = control ?p \<and>
         cur_name (feed nm ?p) = cur_name ?p @ nm \<and>
         errbufIndex (feed nm ?p) < MAXERRORBUFFER \<and>
         (\<forall>a. a < 950 \<longrightarrow>
           a < name_at (stack ?p) 0 \<or> name_at (stack ?p) (length (cur_name ?p) + length nm) < a \<longrightarrow>
           chars (feed nm ?p) a = chars ?p a)"
    by (rule feed_name_chars) (use assms open_field_name in simp_all)
  have e: \<open>feed (''{"'' @ nm) freshSlot = feed nm ?p\<close> by (rule feed_append)
  show \<open>control (feed (''{"'' @ nm) freshSlot) = control ?p\<close>
    and \<open>cur_name (feed (''{"'' @ nm) freshSlot) = nm\<close>
    and \<open>errbufIndex (feed (''{"'' @ nm) freshSlot) < MAXERRORBUFFER\<close>
    unfolding e using f open_field_name(10) by simp_all
  have "chars (feed nm ?p) 0 = chars ?p 0"
    using f open_field_name(2) by (simp add: name_at_def)
  then show \<open>chars (feed (''{"'' @ nm) freshSlot) 0 = NUL\<close>
    unfolding e using open_field_name(11) by simp
qed



section \<open>Values and the length limit\<close>

lemma logged_simps [simp]:
  "control (logged c p) = control p"
  "state (logged c p) = state p"
  "stack (logged c p) = stack p"
  "isSlash (logged c p) = isSlash p"
  "calls (logged c p) = calls p"
  "onError (logged c p) = onError p"
  by (simp_all add: logged_def control_def)

lemma logged_frame:
  assumes "errbufIndex p < MAXERRORBUFFER"
  shows "errbufIndex (logged c p) < MAXERRORBUFFER"
    and "\<And>a. a < 950 \<Longrightarrow> chars (logged c p) a = chars p a"
  using assms by (auto simp: logged_def errbuf_at_def)

lemma logged_cur_value:
  assumes "errbufIndex p < MAXERRORBUFFER" "stack p < 4" "length (cur_value p) \<le> MAXVALUE"
  shows "cur_value (logged c p) = cur_value p"
  unfolding cur_value_def logged_simps cstring_at_def
  by (rule cstring_frame, rule logged_frame(2)[OF assms(1)])
     (use assms(2,3) in \<open>simp add: value_at_def cur_value_def cstring_at_def\<close>)

lemma appendValue_effect:
  assumes "length (cur_value p) < MAXVALUE" "c \<noteq> NUL" "stack p < MAXSTACK"
  shows "control (appendValue c p) = control p"
    and "cur_value (appendValue c p) = cur_value p @ [c]"
    and "errbufIndex (appendValue c p) = errbufIndex p"
    and "\<And>a. a < value_at (stack p) 0 \<or> value_at (stack p) (length (cur_value p) + 1) < a \<Longrightarrow>
           chars (appendValue c p) a = chars p a"
proof -
  have eq: "appendValue c p =
      p\<lparr>chars := (chars p)(value_at (stack p) 0 + length (cur_value p) := c,
                         value_at (stack p) 0 + length (cur_value p) + 1 := NUL)\<rparr>"
    using assms(1) by (simp add: appendValue_def strlen_def cur_value_def Let_def value_at_def)
  show "control (appendValue c p) = control p" by (simp add: eq control_def)
  show "errbufIndex (appendValue c p) = errbufIndex p" by (simp add: eq)
  have "cstring_at ((chars p)(value_at (stack p) 0 + length (cur_value p) := c,
           value_at (stack p) 0 + length (cur_value p) + 1 := NUL)) (value_at (stack p) 0)
        = cur_value p @ [c]"
    by (rule cstring_at_append) (use assms in \<open>simp_all add: cur_value_def value_at_def\<close>)
  then show "cur_value (appendValue c p) = cur_value p @ [c]"
    by (simp add: eq cur_value_def)
  fix a :: nat
  assume "a < value_at (stack p) 0 \<or> value_at (stack p) (length (cur_value p) + 1) < a"
  then show "chars (appendValue c p) a = chars p a"
    by (auto simp: eq value_at_def)
qed

lemma jsonEat_string_chars:
  assumes "state p = STATE_INSTRING"
  shows "\<not> isSlash p \<Longrightarrow> c \<noteq> BACKSLASH \<Longrightarrow> c \<noteq> DQUOTE \<Longrightarrow>
           jsonEat c p = appendValue c (logged c p)"
    and "\<not> isSlash p \<Longrightarrow> jsonEat BACKSLASH p = (logged BACKSLASH p)\<lparr>isSlash := True\<rparr>"
    and "isSlash p \<Longrightarrow>
           jsonEat c p = appendValue c (appendValue BACKSLASH ((logged c p)\<lparr>isSlash := False\<rparr>))"
  using assms by (simp_all add: jsonEat_logged jsonEatNoLog.simps dispatch_def)

lemma jsonEat_digit:
  "state p = STATE_INNUM \<Longrightarrow> isNum c \<Longrightarrow> jsonEat c p = appendValue c (logged c p)"
  by (simp add: jsonEat_logged jsonEatNoLog.simps dispatch_def)

text \<open>One more byte of a value, after the character has been logged.\<close>

lemma value_char_effect:
  assumes "length (cur_value p) < MAXVALUE" "c \<noteq> NUL" "stack p < 4"
    "errbufIndex p < MAXERRORBUFFER"
  shows "control (appendValue c (logged d p)) = control p"
    and "cur_value (appendValue c (logged d p)) = cur_value p @ [c]"
    and "errbufIndex (appendValue c (logged d p)) < MAXERRORBUFFER"
    and "\<And>a. a < value_at (stack p) 0 \<Longrightarrow>
           chars (appendValue c (logged d p)) a = chars p a"
proof -
  have cv: "cur_value (logged d p) = cur_value p"
    by (rule logged_cur_value) (use assms in simp_all)
  have pre: "length (cur_value (logged d p)) < MAXVALUE" "stack (logged d p) < MAXSTACK"
    using assms cv by simp_all
  note eff = appendValue_effect[OF pre(1) assms(2) pre(2)]
  show "control (appendValue c (logged d p)) = control p" using eff(1) by simp
  show "cur_value (appendValue c (logged d p)) = cur_value p @ [c]" using eff(2) cv by simp
  show "errbufIndex (appendValue c (logged d p)) < MAXERRORBUFFER"
    using eff(3) logged_frame(1)[OF assms(4)] by simp
  fix a assume a: "a < value_at (stack p) 0"
  then have "a < 950" using assms(3) by (simp add: value_at_def)
  then show "chars (appendValue c (logged d p)) a = chars p a"
    using eff(4)[of a] a logged_frame(2)[OF assms(4), of a d] by simp
qed

lemma plain_char_effect:
  assumes "state p = STATE_INSTRING" "\<not> isSlash p" "c \<noteq> BACKSLASH" "c \<noteq> DQUOTE" "c \<noteq> NUL"
    "length (cur_value p) < MAXVALUE" "stack p < 4" "errbufIndex p < MAXERRORBUFFER"
  shows "control (jsonEat c p) = control p"
    and "cur_value (jsonEat c p) = cur_value p @ [c]"
    and "errbufIndex (jsonEat c p) < MAXERRORBUFFER"
    and "\<And>a. a < value_at (stack p) 0 \<Longrightarrow> chars (jsonEat c p) a = chars p a"
  unfolding jsonEat_string_chars(1)[OF assms(1-4)]
  by (rule value_char_effect[OF assms(6,5,7,8)])+

lemma escape_pair_effect:
  assumes "state p = STATE_INSTRING" "\<not> isSlash p" "d \<noteq> NUL"
    "length (cur_value p) + 2 \<le> MAXVALUE" "stack p < 4" "errbufIndex p < MAXERRORBUFFER"
  shows "control (jsonEat d (jsonEat BACKSLASH p)) = control p"
    and "cur_value (jsonEat d (jsonEat BACKSLASH p)) = cur_value p @ [BACKSLASH, d]"
    and "errbufIndex (jsonEat d (jsonEat BACKSLASH p)) < MAXERRORBUFFER"
    and "\<And>a. a < value_at (stack p) 0 \<Longrightarrow>
           chars (jsonEat d (jsonEat BACKSLASH p)) a = chars p a"
proof -
  let ?p1 = "logged BACKSLASH p"
  let ?q1 = "?p1\<lparr>isSlash := True\<rparr>"
  let ?r = "(logged d ?q1)\<lparr>isSlash := False\<rparr>"
  let ?s = "appendValue BACKSLASH ?r"
  have e1: "jsonEat BACKSLASH p = ?q1" by (rule jsonEat_string_chars(2)[OF assms(1,2)])
  have q1: "state ?q1 = STATE_INSTRING" "isSlash ?q1" "stack ?q1 = stack p"
    using assms(1) by simp_all
  have e2: "jsonEat d ?q1 = appendValue d ?s" by (rule jsonEat_string_chars(3)[OF q1(1,2)])
  have le: "length (cur_value p) \<le> MAXVALUE" using assms(4) by simp
  have v1: "cur_value ?q1 = cur_value p"
    using logged_cur_value[OF assms(6,5) le, of BACKSLASH] by (simp add: cur_value_def)
  have i1: "errbufIndex ?q1 < MAXERRORBUFFER" using logged_frame(1)[OF assms(6)] by simp
  have c1: "chars ?q1 a = chars p a" if "a < 950" for a
    using logged_frame(2)[OF assms(6) that] by simp
  have v2: "cur_value ?r = cur_value p"
    using logged_cur_value[of ?q1 d] i1 q1(3) assms(5) v1 le by (simp add: cur_value_def)
  have i2: "errbufIndex ?r < MAXERRORBUFFER" using logged_frame(1)[OF i1] by simp
  have c2: "chars ?r a = chars p a" if "a < 950" for a
    using logged_frame(2)[OF i1 that, of d] c1[OF that] by simp
  have k2: "control ?r = control p" "stack ?r = stack p"
    using assms(2) by (simp_all add: control_def logged_def)
  have pre: "length (cur_value ?r) < MAXVALUE" "stack ?r < MAXSTACK"
    using v2 assms(4,5) k2(2) by simp_all
  note a1 = appendValue_effect[OF pre(1) _ pre(2), of BACKSLASH]
  have s: "cur_value ?s = cur_value p @ [BACKSLASH]" "control ?s = control p"
    "stack ?s = stack p" "errbufIndex ?s < MAXERRORBUFFER"
    using a1(1-3) v2 k2 i2 control_simps(6)[OF a1(1)] by simp_all
  have pre2: "length (cur_value ?s) < MAXVALUE" "stack ?s < MAXSTACK"
    using s assms(4,5) by simp_all
  note a2 = appendValue_effect[OF pre2(1) assms(3) pre2(2)]
  show "control (jsonEat d (jsonEat BACKSLASH p)) = control p"
    unfolding e1 e2 using a2(1) s(2) by simp
  show "cur_value (jsonEat d (jsonEat BACKSLASH p)) = cur_value p @ [BACKSLASH, d]"
    unfolding e1 e2 using a2(2) s(1) by simp
  show "errbufIndex (jsonEat d (jsonEat BACKSLASH p)) < MAXERRORBUFFER"
    unfolding e1 e2 using a2(3) s(4) by simp
  fix a assume a: "a < value_at (stack p) 0"
  then have "a < 950" using assms(5) by (simp add: value_at_def)
  then show "chars (jsonEat d (jsonEat BACKSLASH p)) a = chars p a"
    unfolding e1 e2 using a2(4)[of a] a1(4)[of a] a s(3) k2(2) c2[of a] by simp
qed

lemma feed_string_body:
  assumes "escapes_ok raw" "state p = STATE_INSTRING" "\<not> isSlash p"
    "length (cur_value p) + length raw \<le> MAXVALUE" "stack p < 4"
    "errbufIndex p < MAXERRORBUFFER"
  shows "control (feed raw p) = control p \<and>
         cur_value (feed raw p) = cur_value p @ raw \<and>
         errbufIndex (feed raw p) < MAXERRORBUFFER \<and>
         (\<forall>a. a < value_at (stack p) 0 \<longrightarrow> chars (feed raw p) a = chars p a)"
  using assms
proof (induction raw arbitrary: p rule: escapes_ok.induct)
  case 1
  then show ?case by simp
next
  case (2 c)
  then have c: "c \<noteq> BACKSLASH" "c \<noteq> DQUOTE" "c \<noteq> NUL" "length (cur_value p) < MAXVALUE"
    by simp_all
  note eff = plain_char_effect[OF "2.prems"(2,3) c "2.prems"(5,6)]
  show ?case using eff by simp
next
  case (3 c d r)
  show ?case
  proof (cases "c = BACKSLASH")
    case True
    let ?q = "jsonEat d (jsonEat BACKSLASH p)"
    have d: "d \<noteq> NUL" "escapes_ok r" "length (cur_value p) + 2 \<le> MAXVALUE"
      using "3.prems"(1,4) True by auto
    note eff = escape_pair_effect[OF "3.prems"(2,3) d(1,3) "3.prems"(5,6)]
    note k = control_simps[OF eff(1)]
    have IH: "control (feed r ?q) = control ?q \<and>
         cur_value (feed r ?q) = cur_value ?q @ r \<and>
         errbufIndex (feed r ?q) < MAXERRORBUFFER \<and>
         (\<forall>a. a < value_at (stack ?q) 0 \<longrightarrow> chars (feed r ?q) a = chars ?q a)"
      by (rule "3.IH"(1)[OF True d(2)])
         (use k eff(2,3) "3.prems" in simp_all)
    show ?thesis using IH eff k(6) True by simp
  next
    case False
    let ?q = "jsonEat c p"
    have c: "c \<noteq> DQUOTE" "c \<noteq> NUL" "escapes_ok (d # r)" "length (cur_value p) < MAXVALUE"
      using "3.prems"(1,4) False by auto
    note eff = plain_char_effect[OF "3.prems"(2,3) False c(1,2,4) "3.prems"(5,6)]
    note k = control_simps[OF eff(1)]
    have IH: "control (feed (d # r) ?q) = control ?q \<and>
         cur_value (feed (d # r) ?q) = cur_value ?q @ d # r \<and>
         errbufIndex (feed (d # r) ?q) < MAXERRORBUFFER \<and>
         (\<forall>a. a < value_at (stack ?q) 0 \<longrightarrow> chars (feed (d # r) ?q) a = chars ?q a)"
      by (rule "3.IH"(2)[OF False c(3)])
         (use k eff(2,3) "3.prems" in simp_all)
    show ?thesis using IH eff k(6) by simp
  qed
qed

lemma feed_digits:
  assumes "\<forall>c\<in>set ds. isNum c" "state p = STATE_INNUM"
    "length (cur_value p) + length ds \<le> MAXVALUE" "stack p < 4"
    "errbufIndex p < MAXERRORBUFFER"
  shows "control (feed ds p) = control p \<and>
         cur_value (feed ds p) = cur_value p @ ds \<and>
         errbufIndex (feed ds p) < MAXERRORBUFFER"
  using assms
proof (induction ds arbitrary: p)
  case Nil
  then show ?case by simp
next
  case (Cons c ds)
  let ?q = "jsonEat c p"
  have c: "isNum c" "c \<noteq> NUL" "length (cur_value p) < MAXVALUE"
    using Cons.prems by (auto simp: isNum_def)
  have e: "?q = appendValue c (logged c p)" by (rule jsonEat_digit[OF Cons.prems(2) c(1)])
  note eff = value_char_effect[where d = c, OF c(3,2) Cons.prems(4,5), folded e]
  note k = control_simps[OF eff(1)]
  have "control (feed ds ?q) = control ?q \<and>
         cur_value (feed ds ?q) = cur_value ?q @ ds \<and>
         errbufIndex (feed ds ?q) < MAXERRORBUFFER"
    by (rule Cons.IH) (use k eff(2,3) Cons.prems in simp_all)
  then show ?case using eff by simp
qed

section \<open>String values and escape sequences\<close>

lemma open_string_value:
  \<open>state (feed ''{"a":"'' freshSlot) = STATE_INSTRING\<close>
  \<open>\<not> isSlash (feed ''{"a":"'' freshSlot)\<close>
  \<open>stack (feed ''{"a":"'' freshSlot) = 1\<close>
  \<open>stateIndex (feed ''{"a":"'' freshSlot) = 2\<close>
  \<open>states (feed ''{"a":"'' freshSlot) ! 1 = STATE_INOBJECT\<close>
  \<open>states (feed ''{"a":"'' freshSlot) ! 0 = STATE_NONE\<close>
  \<open>onString (feed ''{"a":"'' freshSlot) = Some 6\<close>
  \<open>onObjectComplete (feed ''{"a":"'' freshSlot) = Some 3\<close>
  \<open>onError (feed ''{"a":"'' freshSlot) = Some 1\<close>
  \<open>errbufIndex (feed ''{"a":"'' freshSlot) = 6\<close>
  \<open>cur_name (feed ''{"a":"'' freshSlot) = ''a''\<close>
  \<open>cur_value (feed ''{"a":"'' freshSlot) = ''''\<close>
  \<open>chars (feed ''{"a":"'' freshSlot) 0 = NUL\<close>
  \<open>calls (feed ''{"a":"'' freshSlot) = [CallObjectStart '''']\<close>
  by (simp_all add: eval_defs)

lemma close_string_field:
  assumes "state q = STATE_INSTRING" "\<not> isSlash q" "stack q = 1" "stateIndex q = 2"
    "states q ! 1 = STATE_INOBJECT" "states q ! 0 = STATE_NONE"
    "onString q = Some os" "onObjectComplete q = Some oc"
    "errbufIndex q < MAXERRORBUFFER"
    "cur_name q = nm" "length nm \<le> MAXNAME" "cur_value q = v" "length v \<le> MAXVALUE"
    "chars q 0 = NUL"
  shows \<open>calls (feed ''"}'' q) = calls q @ [CallString nm v, CallObjectComplete ''''] \<and>
         state (feed ''"}'' q) = STATE_NONE\<close>
  using assms
  by (simp add: sym_defs)

lemma string_body_state:
  assumes "escapes_ok raw" "length raw \<le> MAXVALUE"
  shows \<open>control (feed (''{"a":"'' @ raw) freshSlot) = control (feed ''{"a":"'' freshSlot)\<close>
    and \<open>cur_value (feed (''{"a":"'' @ raw) freshSlot) = raw\<close>
    and \<open>errbufIndex (feed (''{"a":"'' @ raw) freshSlot) < MAXERRORBUFFER\<close>
    and \<open>chars (feed (''{"a":"'' @ raw) freshSlot) 0 = NUL\<close>
    and \<open>cur_name (feed (''{"a":"'' @ raw) freshSlot) = ''a''\<close>
proof -
  let ?p = \<open>feed ''{"a":"'' freshSlot\<close>
  have f: "control (feed raw ?p) = control ?p \<and>
         cur_value (feed raw ?p) = cur_value ?p @ raw \<and>
         errbufIndex (feed raw ?p) < MAXERRORBUFFER \<and>
         (\<forall>a. a < value_at (stack ?p) 0 \<longrightarrow> chars (feed raw ?p) a = chars ?p a)"
    by (rule feed_string_body) (use assms open_string_value in simp_all)
  have e: \<open>feed (''{"a":"'' @ raw) freshSlot = feed raw ?p\<close> by (rule feed_append)
  show \<open>control (feed (''{"a":"'' @ raw) freshSlot) = control ?p\<close>
    and \<open>cur_value (feed (''{"a":"'' @ raw) freshSlot) = raw\<close>
    and \<open>errbufIndex (feed (''{"a":"'' @ raw) freshSlot) < MAXERRORBUFFER\<close>
    unfolding e using f open_string_value(12) by simp_all
  have fr: "chars (feed raw ?p) a = chars ?p a" if "a < 310" for a
    using f that open_string_value(3) by (simp add: value_at_def)
  show \<open>chars (feed (''{"a":"'' @ raw) freshSlot) 0 = NUL\<close>
    unfolding e using fr[of 0] open_string_value(13) by simp
  have st: "stack (feed raw ?p) = 1"
    using control_simps(6)[of "feed raw ?p" ?p] f open_string_value(3) by simp
  have "cstring_at (chars (feed raw ?p)) (name_at 1 0) = cstring_at (chars ?p) (name_at 1 0)"
    unfolding cstring_at_def
  proof (rule cstring_frame)
    fix i assume "i \<le> length (cstring (chars ?p) (name_at 1 0) (MEMSIZE - name_at 1 0))"
    then have "i \<le> 1"
      using open_string_value(11,3) by (simp add: cur_name_def cstring_at_def)
    then show "chars (feed raw ?p) (name_at 1 0 + i) = chars ?p (name_at 1 0 + i)"
      by (intro fr) (simp add: name_at_def)
  qed
  then show \<open>cur_name (feed (''{"a":"'' @ raw) freshSlot) = ''a''\<close>
    unfolding e using open_string_value(11,3) st by (simp add: cur_name_def)
qed

lemma fitting_string_calls:
  assumes "escapes_ok raw" "length raw \<le> MAXVALUE"
  shows \<open>calls (feed (''{"a":"'' @ raw @ ''"}'') freshSlot) =
           [CallObjectStart '''', CallString ''a'' raw, CallObjectComplete '''']\<close>
proof -
  let ?q = \<open>feed (''{"a":"'' @ raw) freshSlot\<close>
  note s = string_body_state[OF assms]
  note k = control_simps[OF s(1)]
  have \<open>calls (feed ''"}'' ?q) = calls ?q @ [CallString ''a'' raw, CallObjectComplete ''''] \<and>
        state (feed ''"}'' ?q) = STATE_NONE\<close>
    by (rule close_string_field[where os = 6 and oc = 3])
       (use k open_string_value s(2-5) assms(2) in simp_all)
  moreover have \<open>feed (''{"a":"'' @ raw @ ''"}'') freshSlot = feed ''"}'' ?q\<close>
    using feed_append[of \<open>''{"a":"'' @ raw\<close> \<open>''"}''\<close> freshSlot] by simp
  ultimately show ?thesis using k(14) open_string_value(14) by simp
qed

section \<open>Length errors\<close>

lemma jsonError_aborted:
  assumes "onError p = Some h"
  shows "aborted e p (jsonError e p)"
  using assms by (simp add: aborted_def jsonError_def jsonReset_def invoke_def)

lemma aborted_calls_cong: "calls p' = calls p \<Longrightarrow> aborted e p q \<Longrightarrow> aborted e p' q"
  by (simp add: aborted_def)

lemma aborted_chars_upd: "aborted e p q \<Longrightarrow> aborted e p (q\<lparr>chars := m\<rparr>)"
  by (simp add: aborted_def)

lemma logged_length_mono:
  assumes "c \<noteq> NUL"
  shows "length (cstring_at (chars p) a) \<le> length (cstring_at (chars (logged c p)) a)"
  using cstring_upd_mono[OF assms] by (simp add: logged_def cstring_at_def)

lemma name_overflow_aborted:
  assumes "state p = STATE_INNAME" "isValidNameChar c" "MAXNAME \<le> length (cur_name p)"
    "onError p = Some h"
  shows "aborted ERR_NAMETOOLONG p (jsonEat c p)"
proof -
  have c: "c \<noteq> NUL" "c \<noteq> DQUOTE" using isValidNameChar_plain[OF assms(2)] by auto
  have "\<not> strlen (chars (logged c p)) (name_at (stack (logged c p)) 0) < MAXNAME"
    using logged_length_mono[OF c(1), of p "name_at (stack p) 0"] assms(3)
    by (simp add: strlen_def cur_name_def)
  then have "jsonEat c p = jsonError ERR_NAMETOOLONG (logged c p)"
    using assms(1,2) c
    by (simp add: jsonEat_logged jsonEatNoLog.simps dispatch_def appendName_def Let_def)
  then show ?thesis
    using jsonError_aborted[of "logged c p" h ERR_NAMETOOLONG] assms(4)
    by (simp add: aborted_calls_cong[of p "logged c p"])
qed

lemma appendValue_full:
  assumes "MAXVALUE \<le> length (cur_value p)" "onError p = Some h"
  shows "aborted ERR_VALUETOOLONG p (appendValue c p)"
  using assms jsonError_aborted[of p h ERR_VALUETOOLONG]
  by (simp add: appendValue_def strlen_def cur_value_def Let_def)

lemma logged_cur_value_mono:
  assumes "c \<noteq> NUL"
  shows "length (cur_value p) \<le> length (cur_value (logged c p))"
  using logged_length_mono[OF assms, of p "value_at (stack p) 0"] by (simp add: cur_value_def)

lemma digit_overflow_aborted:
  assumes "state p = STATE_INNUM" "isNum c" "MAXVALUE \<le> length (cur_value p)"
    "onError p = Some h"
  shows "aborted ERR_VALUETOOLONG p (jsonEat c p)"
proof -
  have c: "c \<noteq> NUL" using assms(2) by (auto simp: isNum_def)
  have "aborted ERR_VALUETOOLONG (logged c p) (appendValue c (logged c p))"
    by (rule appendValue_full[where h = h])
       (use logged_cur_value_mono[OF c, of p] assms(3,4) in simp_all)
  then show ?thesis
    unfolding jsonEat_digit[OF assms(1,2)] by (simp add: aborted_calls_cong[of p "logged c p"])
qed

lemma plain_overflow_aborted:
  assumes "state p = STATE_INSTRING" "\<not> isSlash p" "c \<noteq> BACKSLASH" "c \<noteq> DQUOTE" "c \<noteq> NUL"
    "MAXVALUE \<le> length (cur_value p)" "onError p = Some h"
  shows "aborted ERR_VALUETOOLONG p (jsonEat c p)"
proof -
  have "aborted ERR_VALUETOOLONG (logged c p) (appendValue c (logged c p))"
    by (rule appendValue_full[where h = h])
       (use logged_cur_value_mono[OF assms(5), of p] assms(6,7) in simp_all)
  then show ?thesis
    unfolding jsonEat_string_chars(1)[OF assms(1-4)]
    by (simp add: aborted_calls_cong[of p "logged c p"])
qed

lemma escape_overflow_aborted:
  assumes "state p = STATE_INSTRING" "isSlash p" "c \<noteq> NUL"
    "MAXVALUE \<le> length (cur_value p) + 1" "stack p < MAXSTACK" "onError p = Some h"
  shows "aborted ERR_VALUETOOLONG p (jsonEat c p)"
proof -
  let ?r = "(logged c p)\<lparr>isSlash := False\<rparr>"
  have e: "jsonEat c p = appendValue c (appendValue BACKSLASH ?r)"
    by (rule jsonEat_string_chars(3)[OF assms(1,2)])
  have r: "calls ?r = calls p" "onError ?r = Some h" "stack ?r < MAXSTACK"
    "length (cur_value p) \<le> length (cur_value ?r)"
    using assms(5,6) logged_cur_value_mono[OF assms(3), of p] by (simp_all add: cur_value_def)
  show ?thesis
  proof (cases "MAXVALUE \<le> length (cur_value ?r)")
    case True
    let ?z = "jsonError ERR_VALUETOOLONG ?r"
    have z: "appendValue BACKSLASH ?r = ?z"
      using True by (simp add: appendValue_def strlen_def cur_value_def Let_def)
    have ab: "aborted ERR_VALUETOOLONG ?r ?z" by (rule jsonError_aborted[OF r(2)])
    have "cstring_at (chars ?z) (value_at (stack ?z) 0) = []"
      by (rule cstring_at_Nil) (simp add: jsonError_def jsonReset_def invoke_def split: option.splits)
    then have "appendValue c ?z = ?z\<lparr>chars := (chars ?z)(value_at (stack ?z) 0 := c,
                                                   value_at (stack ?z) 1 := NUL)\<rparr>"
      by (simp add: appendValue_def strlen_def Let_def)
    then have "aborted ERR_VALUETOOLONG ?r (appendValue c ?z)"
      using aborted_chars_upd[OF ab] by simp
    then show ?thesis unfolding e z using r(1) by (simp add: aborted_calls_cong[of p ?r])
  next
    case False
    let ?s = "appendValue BACKSLASH ?r"
    have lt: "length (cur_value ?r) < MAXVALUE" using False by simp
    note eff = appendValue_effect[OF lt _ r(3), of BACKSLASH]
    have "MAXVALUE \<le> length (cur_value ?s)" using eff(2) r(4) assms(4) by simp
    moreover have "onError ?s = Some h" "calls ?s = calls p"
      using control_simps(7,14)[OF eff(1)] r(1,2) by simp_all
    ultimately show ?thesis
      unfolding e using appendValue_full[of ?s h c] by (simp add: aborted_calls_cong[of p ?s])
  qed
qed

lemma ring_copy_unfold:
  "0 < n \<Longrightarrow> ring_copy m start n =
     m (errbuf_at start) #
     ring_copy m (if Suc start \<ge> MAXERRORBUFFER then 0 else Suc start) (n - 1)"
  by (cases n) auto

lemma overflow_then_rest:
  assumes "state q = STATE_INNAME" "stack q = 1" "cur_name q = nm" "length nm = MAXNAME"
    "errbufIndex q < MAXERRORBUFFER" "onError q = Some e" "onInteger q = Some oi"
    "length (states q) = MAXSTATES"
  shows \<open>\<exists>ctx. calls (feed ''a":1,"b":2}'' q) =
           calls q @ [CallError ERR_NAMETOOLONG ''name too long'' ctx,
                      CallError ERR_PARSE_ILLNAME ''illegal name char'' ''":'',
                      CallInteger ''b'' 2]\<close>
  using assms
  by (simp add: sym_defs locerrbuf_def json_errors_def ring_copy_unfold)

lemma plain_chars_escapes_ok:
  "\<forall>c\<in>set s. c \<noteq> BACKSLASH \<and> c \<noteq> DQUOTE \<and> c \<noteq> NUL \<Longrightarrow> escapes_ok s"
  by (induction s rule: escapes_ok.induct) auto

lemma open_number_value:
  \<open>state (feed ''{"a":1'' freshSlot) = STATE_INNUM\<close>
  \<open>stack (feed ''{"a":1'' freshSlot) = 1\<close>
  \<open>onError (feed ''{"a":1'' freshSlot) = Some 1\<close>
  \<open>errbufIndex (feed ''{"a":1'' freshSlot) = 6\<close>
  \<open>cur_value (feed ''{"a":1'' freshSlot) = ''1''\<close>
  by (simp_all add: eval_defs)




section \<open>The terminator of a full row\<close>

lemma bare_name_opened:
  \<open>state (feed ''{"c":1}"'' freshSlot) = STATE_INNAME\<close>
  \<open>stack (feed ''{"c":1}"'' freshSlot) = 0\<close>
  \<open>errbufIndex (feed ''{"c":1}"'' freshSlot) = 8\<close>
  \<open>cur_name (feed ''{"c":1}"'' freshSlot) = ''''\<close>
  \<open>chars (feed ''{"c":1}"'' freshSlot) 30 = CHR ''c''\<close>
  \<open>chars (feed ''{"c":1}"'' freshSlot) 31 = NUL\<close>
  by (simp_all add: eval_defs)

text \<open>
  C10, evaluated where it fails. After \<open>{"c":1}\<close> the row \<open>name[1]\<close> holds "c". A bare
  top-level name then fills \<open>name[0]\<close>. When its 30th character arrives the row holds
  29 characters, so the guard \<open>len < MAXNAME\<close> holds; the character goes to index 29
  and the terminator to index 30, which is not an index of the row: it is the first
  byte of \<open>name[1]\<close>, whose string "c" becomes the empty string, although the parser
  is at stack level 0 and makes no call.
\<close>

theorem terminator_written_past_the_row:
  \<open>state (feed (''{"c":1}"'' @ replicate 29 CHR ''a'') freshSlot) = STATE_INNAME \<and>
   stack (feed (''{"c":1}"'' @ replicate 29 CHR ''a'') freshSlot) = 0 \<and>
   strlen (chars (feed (''{"c":1}"'' @ replicate 29 CHR ''a'') freshSlot)) (name_at 0 0) = 29 \<and>
   cstring_at (chars (feed (''{"c":1}"'' @ replicate 29 CHR ''a'') freshSlot)) (name_at 1 0)
     = ''c'' \<and>
   cur_name (jsonEat CHR ''a'' (feed (''{"c":1}"'' @ replicate 29 CHR ''a'') freshSlot))
     = replicate 30 CHR ''a'' \<and>
   name_at 0 MAXNAME = name_at 1 0 \<and>
   chars (jsonEat CHR ''a'' (feed (''{"c":1}"'' @ replicate 29 CHR ''a'') freshSlot))
     (name_at 0 MAXNAME) = NUL \<and>
   cstring_at (chars (jsonEat CHR ''a'' (feed (''{"c":1}"'' @ replicate 29 CHR ''a'') freshSlot)))
     (name_at 1 0) = '''' \<and>
   stack (jsonEat CHR ''a'' (feed (''{"c":1}"'' @ replicate 29 CHR ''a'') freshSlot)) = 0 \<and>
   calls (jsonEat CHR ''a'' (feed (''{"c":1}"'' @ replicate 29 CHR ''a'') freshSlot)) =
     calls (feed (''{"c":1}"'' @ replicate 29 CHR ''a'') freshSlot)\<close>
proof -
  let ?b = \<open>feed ''{"c":1}"'' freshSlot\<close>
  let ?as = "replicate 29 CHR ''a''"
  let ?p = \<open>feed (''{"c":1}"'' @ ?as) freshSlot\<close>
  let ?q = "jsonEat CHR ''a'' ?p"
  have v: "\<forall>c\<in>set ?as. isValidNameChar c" "isValidNameChar CHR ''a''"
    by (simp_all add: isValidNameChar_def isAlpha_def)
  have e: "?p = feed ?as ?b" by (rule feed_append)
  have f: "control (feed ?as ?b) = control ?b \<and>
         cur_name (feed ?as ?b) = cur_name ?b @ ?as \<and>
         errbufIndex (feed ?as ?b) < MAXERRORBUFFER \<and>
         (\<forall>a. a < 950 \<longrightarrow>
           a < name_at (stack ?b) 0 \<or> name_at (stack ?b) (length (cur_name ?b) + length ?as) < a \<longrightarrow>
           chars (feed ?as ?b) a = chars ?b a)"
    by (rule feed_name_chars) (use v bare_name_opened in simp_all)
  have k: "state ?p = STATE_INNAME" "stack ?p = 0" "cur_name ?p = ?as"
    "errbufIndex ?p < MAXERRORBUFFER"
    unfolding e using f control_simps[of "feed ?as ?b" ?b] bare_name_opened by simp_all
  have m: "chars ?p 30 = CHR ''c''" "chars ?p 31 = NUL"
    unfolding e using f bare_name_opened by (simp_all add: name_at_def)
  have row1: "cstring_at (chars ?p) (name_at 1 0) = ''c''"
    using m by (simp add: name_at_def cstring_at_Cons cstring_at_Nil)
  have len: "length (cur_name ?p) < MAXNAME" "stack ?p < MAXSTACK" using k by simp_all
  note eff = name_char_effect[OF k(1) v(2) len k(4)]
  have r30: "replicate 30 CHR ''a'' = ?as @ ''a''"
    using replicate_add[of 29 1 "CHR ''a''"] by simp
  have nq: "cur_name ?q = replicate 30 CHR ''a''" using eff(2) k(3) r30 by simp
  have sq: "stack ?q = 0" "calls ?q = calls ?p" using control_simps[OF eff(1)] k(2) by simp_all
  have "chars ?q (name_at 0 0 + length (cstring (chars ?q) (name_at 0 0) (MEMSIZE - name_at 0 0)))
        = NUL"
    by (rule cstring_terminator) (use nq sq in \<open>simp add: cur_name_def cstring_at_def name_at_def\<close>)
  then have t: "chars ?q (name_at 0 MAXNAME) = NUL"
    using nq sq by (simp add: cur_name_def cstring_at_def name_at_def)
  then have row1': "cstring_at (chars ?q) (name_at 1 0) = ''''"
    by (simp add: cstring_at_Nil name_at_def)
  show ?thesis
    using k row1 nq t row1' sq by (simp add: strlen_def cur_name_def name_at_def)
qed

section \<open>Errors and the reset\<close>

text \<open>
  C2, evaluated where it fails. With four objects open, a fifth \<open>{\<close> in the state
  \<open>STATE_TOVALUE\<close> overflows the name stack: \<open>setState\<close> reports the internal error and
  resets the slot, and the \<open>toState\<close> that follows it in the same case pushes the idle
  state and enters \<open>STATE_TONAME\<close>. When \<open>jsonEat\<close> returns, the error callback has been
  called and the slot is not idle: its state stack holds one entry.
\<close>

theorem nesting_overflow_leaves_slot_busy:
  \<open>let p = feed ''{"a":{"a":{"a":{"a":'' freshSlot; q = jsonEat CHR ''{'' p in
     state p = STATE_TOVALUE \<and> stack p = 4 \<and>
     calls q = calls p @
       [CallObjectStart ''a'',
        CallError ERR_INTERNAL ''internal error'' ''"a":{"a":{"a":{"a":{''] \<and>
     state q = STATE_TONAME \<and> stateIndex q = 1 \<and> states q ! 0 = STATE_NONE \<and>
     state (jsonEat CHR ''['' p) = STATE_TONAME \<and> stateIndex (jsonEat CHR ''['' p) = 1\<close>
  by (simp add: eval_defs ring_copy_unfold)

section \<open>The context of an error\<close>

text \<open>
  C4, evaluated where it fails. \<open>numchars\<close> counts every character, the ring holds
  only those that are not white space. After \<open>{\<close>, a space and \<open>x\<close> the count is 3 and
  the ring holds 2 characters, so the copy starts one byte before them, at the last
  byte of the ring, which was never written: the context handed to the error callback
  is the empty string, not \<open>{x\<close>.
\<close>

theorem context_counts_white_space:
  \<open>let p = feed ''{ '' freshSlot; q = jsonEat CHR ''x'' p in
     numchars p = 2 \<and> errbufIndex p = 1 \<and>
     calls q = calls p @ [CallError ERR_PARSE_NAME ''parsing name'' ''''] \<and>
     ring_copy (chars (logged CHR ''x'' p)) 19 3 = [NUL, CHR ''{'', CHR ''x'']\<close>
  by (simp add: eval_defs ring_copy_unfold logged_def)

section \<open>The comma flag\<close>

lemma keeps_flag_clear:
  "\<not> allowComma p \<Longrightarrow> \<not> allowComma (jsonError e p)"
  "\<not> allowComma p \<Longrightarrow> \<not> allowComma (invoke f ev p)"
  "\<not> allowComma p \<Longrightarrow> \<not> allowComma (setState st p)"
  "\<not> allowComma p \<Longrightarrow> \<not> allowComma (toState st p)"
  "\<not> allowComma p \<Longrightarrow> \<not> allowComma (appendName c p)"
  "\<not> allowComma p \<Longrightarrow> \<not> allowComma (appendValue c p)"
  by (auto simp: jsonError_def jsonReset_def invoke_def setState_def pushName_def toState_def
      appendName_def appendValue_def Let_def split: option.splits pstate.splits)

lemma invoke_simps [simp]:
  "state (invoke f ev p) = state p"
  "states (invoke f ev p) = states p"
  "stateIndex (invoke f ev p) = stateIndex p"
  "stack (invoke f ev p) = stack p"
  "allowComma (invoke f ev p) = allowComma p"
  by (simp_all add: invoke_def split: option.splits)

lemma upState_flag:
  assumes "\<not> allowComma p"
  shows "allowComma (upState p) \<longleftrightarrow>
           0 < stateIndex p \<and> 0 < stack p \<and>
           (states p ! (stateIndex p - 1) = STATE_INOBJECT \<or>
            states p ! (stateIndex p - 1) = STATE_INARRAY)"
  using assms keeps_flag_clear(1)
  by (auto simp: upState_def Let_def)

lemma upState_no_flag:
  assumes "\<not> allowComma (upState p)"
  shows "stateIndex (upState p) = 0 \<or>
         (states (upState p) = states p \<and> stateIndex (upState p) < stateIndex p \<and>
          stack (upState p) = stack p)"
  using assms
  by (auto simp: upState_def Let_def jsonError_def jsonReset_def invoke_def split: option.splits)

text \<open>What one pass through the switch can do to a clear flag.\<close>

lemma dispatch_flag:
  assumes "\<not> allowComma p" "dispatch c p = (again, q)"
  shows "(allowComma q \<longrightarrow>
            (state p = STATE_INOBJECT \<or> state p = STATE_INARRAY \<or> state p = STATE_OUTVALUE) \<and>
            0 < stateIndex p \<and> 0 < stack p \<and>
            (states p ! (stateIndex p - 1) = STATE_INOBJECT \<or>
             states p ! (stateIndex p - 1) = STATE_INARRAY)) \<and>
         (\<not> allowComma q \<and> again \<longrightarrow>
            (state p = STATE_INNUM \<or> state p = STATE_OUTVALUE) \<and>
            (stateIndex q = 0 \<or>
             (states q = states p \<and> stateIndex q \<le> stateIndex p \<and> stack q = stack p)))"
proof (cases "state p")
  case STATE_INOBJECT
  with assms show ?thesis
    using upState_flag[of "invoke (onObjectComplete p) (CallObjectComplete (cur_name p)) p"]
    by (auto simp: dispatch_def keeps_flag_clear split: if_splits)
next
  case STATE_INARRAY
  with assms show ?thesis
    using upState_flag[of "invoke (onArrayComplete p) (CallArrayComplete (cur_name p)) p"]
    by (auto simp: dispatch_def keeps_flag_clear split: if_splits)
next
  case STATE_OUTVALUE
  with assms show ?thesis
    using upState_flag[of p] upState_no_flag[of p]
    by (auto simp: dispatch_def keeps_flag_clear split: if_splits)
next
  case STATE_INNUM
  with assms show ?thesis
    by (auto simp: dispatch_def keeps_flag_clear setState_def split: if_splits)
next
  case STATE_NONE
  with assms show ?thesis by (auto simp: dispatch_def keeps_flag_clear split: if_splits)
next
  case STATE_TONAME
  with assms show ?thesis by (auto simp: dispatch_def keeps_flag_clear split: if_splits)
next
  case STATE_INNAME
  with assms show ?thesis by (auto simp: dispatch_def keeps_flag_clear split: if_splits)
next
  case STATE_TOCOLUMN
  with assms show ?thesis by (auto simp: dispatch_def keeps_flag_clear split: if_splits)
next
  case STATE_TOVALUE
  with assms show ?thesis by (auto simp: dispatch_def keeps_flag_clear split: if_splits)
next
  case STATE_INSTRING
  with assms show ?thesis by (auto simp: dispatch_def keeps_flag_clear split: if_splits)
qed

lemma jsonEatNoLog_flag:
  "\<not> allowComma p \<Longrightarrow> allowComma (jsonEatNoLog c p) \<Longrightarrow>
     (state p = STATE_INOBJECT \<or> state p = STATE_INARRAY \<or> state p = STATE_INNUM \<or>
      state p = STATE_OUTVALUE) \<and>
     0 < stack p \<and>
     (\<exists>i<stateIndex p. states p ! i = STATE_INOBJECT \<or> states p ! i = STATE_INARRAY)"
proof (induction c p rule: jsonEatNoLog.induct)
  case (1 c p)
  obtain again q where d: "dispatch c p = (again, q)" by (cases "dispatch c p")
  note f = dispatch_flag[OF "1.prems"(1) d]
  show ?case
  proof (cases "allowComma q")
    case True
    with f have "(state p = STATE_INOBJECT \<or> state p = STATE_INARRAY \<or> state p = STATE_OUTVALUE)"
      "0 < stateIndex p" "0 < stack p"
      "states p ! (stateIndex p - 1) = STATE_INOBJECT \<or>
       states p ! (stateIndex p - 1) = STATE_INARRAY"
      by auto
    moreover from this(2) have "stateIndex p - 1 < stateIndex p" by simp
    ultimately show ?thesis by blast
  next
    case False
    have again: again
    proof (rule ccontr)
      assume "\<not> again"
      then have "jsonEatNoLog c p = q" using d by (simp add: jsonEatNoLog.simps)
      with "1.prems"(2) False show False by simp
    qed
    have r: "jsonEatNoLog c p = jsonEatNoLog c q" using d again by (simp add: jsonEatNoLog.simps)
    have IH: "(state q = STATE_INOBJECT \<or> state q = STATE_INARRAY \<or> state q = STATE_INNUM \<or>
        state q = STATE_OUTVALUE) \<and> 0 < stack q \<and>
       (\<exists>i<stateIndex q. states q ! i = STATE_INOBJECT \<or> states q ! i = STATE_INARRAY)"
      using "1.IH"[OF d[symmetric] again False] "1.prems"(2) r by simp
    from f False again have
      "(state p = STATE_INNUM \<or> state p = STATE_OUTVALUE)"
      "stateIndex q = 0 \<or>
        (states q = states p \<and> stateIndex q \<le> stateIndex p \<and> stack q = stack p)"
      by auto
    with IH show ?thesis by force
  qed
qed

lemma logged_control_simps [simp]:
  "allowComma (logged c p) = allowComma p"
  "states (logged c p) = states p"
  "stateIndex (logged c p) = stateIndex p"
  by (simp_all add: logged_def)

lemma jsonEatNoLog_once:
  "\<not> fst (dispatch c p) \<Longrightarrow> jsonEatNoLog c p = snd (dispatch c p)"
  by (cases "dispatch c p") (simp add: jsonEatNoLog.simps)

lemma comma_step:
  assumes "state p = STATE_INOBJECT \<or> state p = STATE_INARRAY"
  shows "allowComma p \<Longrightarrow> \<not> allowComma (jsonEat CHR '','' p)"
    and "allowComma p \<Longrightarrow> stateIndex p + 1 < MAXSTATES \<Longrightarrow>
           state (jsonEat CHR '','' p) = STATE_TONAME"
    and "\<not> allowComma p \<Longrightarrow> onError p = Some h \<Longrightarrow>
           aborted (if state p = STATE_INOBJECT then ERR_PARSE_OBJECT else ERR_PARSE_ARRAY) p
             (jsonEat CHR '','' p)"
proof -
  show "\<not> allowComma (jsonEat CHR '','' p)" if "allowComma p"
    using assms that
    by (elim disjE) (simp_all add: jsonEat_logged jsonEatNoLog_once dispatch_def keeps_flag_clear)
  show "state (jsonEat CHR '','' p) = STATE_TONAME"
    if "allowComma p" "stateIndex p + 1 < MAXSTATES"
    using assms that
    by (elim disjE)
       (simp_all add: jsonEat_logged jsonEatNoLog_once dispatch_def toState_def setState_def
          Let_def)
  show "aborted (if state p = STATE_INOBJECT then ERR_PARSE_OBJECT else ERR_PARSE_ARRAY) p
          (jsonEat CHR '','' p)"
    if "\<not> allowComma p" "onError p = Some h"
  proof -
    have "aborted e (logged CHR '','' p) (jsonError e (logged CHR '','' p))" for e
      by (rule jsonError_aborted[where h = h]) (use that in simp)
    then have "aborted e p (jsonError e (logged CHR '','' p))" for e
      by (simp add: aborted_calls_cong[of p "logged CHR '','' p"])
    then show ?thesis
      using assms that
      by (elim disjE)
         (simp_all add: jsonEat_logged jsonEatNoLog_once dispatch_def isWhiteSpace_def)
  qed
qed

lemma top_level_entry_clears: "state p = STATE_NONE \<Longrightarrow> \<not> allowComma (jsonEat CHR ''{'' p)"
  by (simp add: jsonEat_logged jsonEatNoLog_once dispatch_def)

lemma nested_entry_keeps:
  assumes "state p = STATE_TOVALUE" "c = CHR ''['' \<or> c = CHR ''{''"
    "stack p + 1 < MAXSTACK" "stateIndex p + 1 < MAXSTATES"
  shows "state (jsonEat c p) = STATE_TONAME" "allowComma (jsonEat c p) = allowComma p"
  using assms
  by (elim disjE;
      simp add: jsonEat_logged jsonEatNoLog_once dispatch_def toState_def setState_def
        pushName_def isNum_def isSign_def Let_def)+

lemma closing_pop_sets:
  assumes "(state p = STATE_INOBJECT \<and> c = CHR ''}'') \<or> (state p = STATE_INARRAY \<and> c = CHR '']'')"
    "0 < stateIndex p" "0 < stack p"
    "states p ! (stateIndex p - 1) = STATE_INOBJECT \<or>
     states p ! (stateIndex p - 1) = STATE_INARRAY"
  shows "allowComma (jsonEat c p)"
  using assms
  by (elim disjE conjE)
     (simp_all add: jsonEat_logged jsonEatNoLog_once dispatch_def upState_def Let_def)

lemma flag_raised_by_pop:
  assumes "\<not> allowComma p" "allowComma (jsonEat c p)"
  shows "(state p = STATE_INOBJECT \<or> state p = STATE_INARRAY \<or> state p = STATE_INNUM \<or>
          state p = STATE_OUTVALUE) \<and>
         0 < stack p \<and>
         (\<exists>i<stateIndex p. states p ! i = STATE_INOBJECT \<or> states p ! i = STATE_INARRAY)"
  using jsonEatNoLog_flag[of "logged c p" c] assms by (simp add: jsonEat_logged)




section \<open>Switching between slots\<close>

lemma jsonGetSelected_eq:
  "jsonGetSelected w = (if parser w < MAXPARSERS then parser w else 0)"
proof -
  have u: "[0..<MAXPARSERS] = [0, 1]" by code_simp
  have "parser w = 0 \<or> parser w = 1 \<or> \<not> parser w < MAXPARSERS" by arith
  then show ?thesis unfolding jsonGetSelected_def u by auto
qed

text \<open>
  C9. In a pool whose pointer designates one of its slots: \<open>jsonSelectNext\<close> at the last
  slot and \<open>jsonSelectPrev\<close> at the first leave the selected index as it is; anywhere
  else they move it by exactly one; and neither of them changes any slot
  (\<open>jsonGetSelected\<close> only reads the pointer).
\<close>

theorem slot_switching:
  assumes "parser w < MAXPARSERS"
  shows "(jsonGetSelected w = MAXPARSERS - 1 \<longrightarrow>
            jsonGetSelected (jsonSelectNext w) = jsonGetSelected w) \<and>
         (jsonGetSelected w = 0 \<longrightarrow>
            jsonGetSelected (jsonSelectPrev w) = jsonGetSelected w) \<and>
         (jsonGetSelected w < MAXPARSERS - 1 \<longrightarrow>
            jsonGetSelected (jsonSelectNext w) = jsonGetSelected w + 1) \<and>
         (0 < jsonGetSelected w \<longrightarrow>
            jsonGetSelected (jsonSelectPrev w) + 1 = jsonGetSelected w) \<and>
         parser (jsonSelectNext w) < MAXPARSERS \<and> parser (jsonSelectPrev w) < MAXPARSERS \<and>
         parserData (jsonSelectNext w) = parserData w \<and>
         parserData (jsonSelectPrev w) = parserData w"
  using assms
  by (auto simp: jsonGetSelected_eq jsonSelectNext_def jsonSelectPrev_def Let_def)

theorem slot_switching_witness:
  "parser initialWorld < MAXPARSERS \<and>
   jsonGetSelected initialWorld = 0 \<and>
   jsonGetSelected (jsonSelectPrev initialWorld) = 0 \<and>
   jsonGetSelected (jsonSelectNext initialWorld) = 1 \<and>
   jsonGetSelected (jsonSelectNext (jsonSelectNext initialWorld)) = 1 \<and>
   jsonGetSelected (jsonSelectPrev (jsonSelectNext initialWorld)) = 0 \<and>
   parserData (jsonSelectNext initialWorld) = parserData initialWorld \<and>
   parserData (jsonSelectPrev (jsonSelectNext initialWorld)) = parserData initialWorld"
proof -
  have i: "parser initialWorld < MAXPARSERS" "jsonGetSelected initialWorld = 0"
    by (simp_all add: initialWorld_def jsonGetSelected_eq)
  note a = slot_switching[OF i(1)]
  have j: "parser (jsonSelectNext initialWorld) < MAXPARSERS" using a by simp
  note b = slot_switching[OF j]
  show ?thesis using i a b by simp
qed

section \<open>After the reset\<close>

lemma no_string_call_simps [simp]:
  "no_string_call (jsonError e p) = no_string_call p"
  "no_string_call (invoke f (CallError e m x) p) = no_string_call p"
  "no_string_call (invoke f (CallObjectStart n) p) = no_string_call p"
  "no_string_call (setState st p) = no_string_call p"
  "no_string_call (toState st p) = no_string_call p"
  "no_string_call (appendName c p) = no_string_call p"
  "no_string_call (logged c p) = no_string_call p"
  "no_string_call (p\<lparr>allowComma := b\<rparr>) = no_string_call p"
  by (auto simp: no_string_call_def jsonError_def jsonReset_def invoke_def setState_def
      pushName_def toState_def appendName_def Let_def split: option.splits pstate.splits)

lemma state_after_error [simp]: "state (jsonError e p) = STATE_NONE"
  by (simp add: jsonError_def jsonReset_def)

lemma state_toState:
  "state (toState st p) = st \<or> state (toState st p) = STATE_NONE"
  by (auto simp: toState_def setState_def pushName_def Let_def split: pstate.splits)

lemma state_appendName:
  "state (appendName c p) = state p \<or> state (appendName c p) = STATE_NONE"
  by (auto simp: appendName_def Let_def)

lemma seeking_plain:
  assumes "seeking p" "c \<noteq> DQUOTE"
  shows "seeking (jsonEat c p)"
proof -
  have ns: "no_string_call p" using assms(1) by (simp add: seeking_def)
  consider "state p = STATE_NONE" | "state p = STATE_INNAME" | "state p = STATE_TONAME"
    using assms(1) by (auto simp: seeking_def)
  then show ?thesis
  proof cases
    case 1
    let ?p1 = "invoke (onObjectStart (logged c p)) (CallObjectStart (cur_name (logged c p)))
                 (logged c p)"
    show ?thesis
      using 1 assms(2) ns state_toState[of STATE_TONAME "toState STATE_INOBJECT ?p1"]
      by (auto simp: seeking_def jsonEat_logged jsonEatNoLog_once dispatch_def)
  next
    case 2
    then show ?thesis
      using assms(2) ns state_appendName[of c "logged c p"]
      by (auto simp: seeking_def jsonEat_logged jsonEatNoLog_once dispatch_def)
  next
    case 3
    then show ?thesis
      using assms(2) ns
      by (auto simp: seeking_def jsonEat_logged jsonEatNoLog_once dispatch_def)
  qed
qed

lemma seeking_backslash:
  assumes "seeking p"
  shows "state (jsonEat BACKSLASH p) = STATE_NONE" "no_string_call (jsonEat BACKSLASH p)"
proof -
  have ns: "no_string_call p" using assms(1) by (simp add: seeking_def)
  have "state (jsonEat BACKSLASH p) = STATE_NONE \<and> no_string_call (jsonEat BACKSLASH p)"
    using assms ns
    by (auto simp: seeking_def jsonEat_logged jsonEatNoLog_once dispatch_def
        isValidNameChar_def isAlpha_def isNum_def isWhiteSpace_def)
  then show "state (jsonEat BACKSLASH p) = STATE_NONE" "no_string_call (jsonEat BACKSLASH p)"
    by simp_all
qed

lemma seeking_from_idle:
  assumes "state p = STATE_NONE" "no_string_call p"
  shows "seeking (jsonEat d p)"
proof (cases "d = DQUOTE")
  case True
  then show ?thesis
    using assms state_toState[of STATE_INNAME "logged d p"]
    by (auto simp: seeking_def jsonEat_logged jsonEatNoLog_once dispatch_def)
next
  case False
  have "seeking p" using assms by (simp add: seeking_def)
  then show ?thesis using False by (rule seeking_plain)
qed

lemma seeking_body:
  "escapes_ok r \<Longrightarrow> seeking p \<Longrightarrow> seeking (feed r p)"
proof (induction r arbitrary: p rule: escapes_ok.induct)
  case 1
  then show ?case by simp
next
  case (2 c)
  then show ?case using seeking_plain[of p c] by simp
next
  case (3 c d r)
  show ?case
  proof (cases "c = BACKSLASH")
    case True
    have "seeking (jsonEat d (jsonEat BACKSLASH p))"
      by (rule seeking_from_idle) (rule seeking_backslash[OF "3.prems"(2)])+
    then show ?thesis using "3.IH"(1)[OF True] "3.prems"(1) True by simp
  next
    case False
    have "seeking (jsonEat c p)"
      by (rule seeking_plain) (use "3.prems" False in auto)
    then show ?thesis using "3.IH"(2)[OF False] "3.prems"(1) False by simp
  qed
qed

lemma seeking_close:
  assumes "seeking p"
  shows \<open>no_string_call (feed ''"}'' p)\<close>
proof -
  have ns: "no_string_call p" using assms(1) by (simp add: seeking_def)
  consider "state p = STATE_NONE" | "state p = STATE_INNAME" | "state p = STATE_TONAME"
    using assms(1) by (auto simp: seeking_def)
  then show ?thesis
  proof cases
    case 1
    have s: "seeking (jsonEat DQUOTE p)" by (rule seeking_from_idle[OF 1 ns])
    have "seeking (jsonEat CHR ''}'' (jsonEat DQUOTE p))" by (rule seeking_plain[OF s]) simp
    then show ?thesis by (simp add: seeking_def)
  next
    case 2
    then have q: "state (jsonEat DQUOTE p) = STATE_TOCOLUMN" "no_string_call (jsonEat DQUOTE p)"
      using ns
      by (simp_all add: jsonEat_logged jsonEatNoLog_once dispatch_def setState_def
          no_string_call_def logged_def)
    then show ?thesis
      by (simp add: jsonEat_logged[of "CHR ''}''"] jsonEatNoLog_once dispatch_def
          isWhiteSpace_def)
  next
    case 3
    then have "seeking (jsonEat DQUOTE p)"
      using ns
      by (simp add: seeking_def jsonEat_logged jsonEatNoLog_once dispatch_def setState_def
          no_string_call_def logged_def)
    then have "seeking (jsonEat CHR ''}'' (jsonEat DQUOTE p))" by (rule seeking_plain) simp
    then show ?thesis by (simp add: seeking_def)
  qed
qed

lemma aborted_seeking: "aborted e p q \<Longrightarrow> no_string_call p \<Longrightarrow> seeking q"
  by (auto simp: aborted_def seeking_def no_string_call_def)

lemma control_no_string_call: "control q = control p \<Longrightarrow> no_string_call q = no_string_call p"
  by (simp add: control_def no_string_call_def)

text \<open>A string body that does not fit: the length error, then the search for a name.\<close>

lemma overlong_string_body:
  assumes "escapes_ok raw" "state p = STATE_INSTRING" "\<not> isSlash p"
    "length (cur_value p) \<le> MAXVALUE" "MAXVALUE < length (cur_value p) + length raw"
    "stack p < 4" "errbufIndex p < MAXERRORBUFFER" "onError p = Some h" "no_string_call p"
  shows "seeking (feed raw p)"
  using assms
proof (induction raw arbitrary: p rule: escapes_ok.induct)
  case 1
  then show ?case by simp
next
  case (2 c)
  then have "aborted ERR_VALUETOOLONG p (jsonEat c p)"
    by (intro plain_overflow_aborted[where h = h]) simp_all
  then show ?case using "2.prems"(9) by (simp add: aborted_seeking)
next
  case (3 c d r)
  show ?case
  proof (cases "c = BACKSLASH")
    case True
    have d: "d \<noteq> NUL" "escapes_ok r" using "3.prems"(1) True by auto
    show ?thesis
    proof (cases "length (cur_value p) + 2 \<le> MAXVALUE")
      case fits: True
      let ?q = "jsonEat d (jsonEat BACKSLASH p)"
      note eff = escape_pair_effect[OF "3.prems"(2,3) d(1) fits "3.prems"(6,7)]
      note k = control_simps[OF eff(1)]
      have "seeking (feed r ?q)"
        by (rule "3.IH"(1)[OF True d(2)])
           (use k eff(2,3) "3.prems" fits control_no_string_call[OF eff(1)] in simp_all)
      then show ?thesis using True by simp
    next
      case False
      let ?q = "jsonEat BACKSLASH p"
      have e: "?q = (logged BACKSLASH p)\<lparr>isSlash := True\<rparr>"
        by (rule jsonEat_string_chars(2)[OF "3.prems"(2,3)])
      have "cur_value (logged BACKSLASH p) = cur_value p"
        by (rule logged_cur_value) (use "3.prems" in simp_all)
      then have q: "state ?q = STATE_INSTRING" "isSlash ?q"
        "MAXVALUE \<le> length (cur_value ?q) + 1" "stack ?q < MAXSTACK" "onError ?q = Some h"
        "no_string_call ?q"
        unfolding e using "3.prems" False by (simp_all add: cur_value_def no_string_call_def)
      have "aborted ERR_VALUETOOLONG ?q (jsonEat d ?q)"
        by (rule escape_overflow_aborted[OF q(1,2) d(1) q(3,4,5)])
      then have "seeking (jsonEat d ?q)" using q(6) by (rule aborted_seeking)
      then have "seeking (feed r (jsonEat d ?q))" by (rule seeking_body[OF d(2)])
      then show ?thesis using True by simp
    qed
  next
    case False
    have c: "c \<noteq> DQUOTE" "c \<noteq> NUL" "escapes_ok (d # r)" using "3.prems"(1) False by auto
    show ?thesis
    proof (cases "length (cur_value p) < MAXVALUE")
      case fits: True
      let ?q = "jsonEat c p"
      note eff = plain_char_effect[OF "3.prems"(2,3) False c(1,2) fits "3.prems"(6,7)]
      note k = control_simps[OF eff(1)]
      have "seeking (feed (d # r) ?q)"
        by (rule "3.IH"(2)[OF False c(3)])
           (use k eff(2,3) "3.prems" fits control_no_string_call[OF eff(1)] in simp_all)
      then show ?thesis by simp
    next
      case full: False
      have "aborted ERR_VALUETOOLONG p (jsonEat c p)"
        by (rule plain_overflow_aborted[OF "3.prems"(2,3) False c(1,2) _ "3.prems"(8)])
           (use full in simp)
      then have "seeking (jsonEat c p)" using "3.prems"(9) by (rule aborted_seeking)
      then have "seeking (feed (d # r) (jsonEat c p))" by (rule seeking_body[OF c(3)])
      then show ?thesis by simp
    qed
  qed
qed



subsection \<open>The flag in slots reached from a reset\<close>

text \<open>
  In \<open>STATE_INOBJECT\<close> and \<open>STATE_INARRAY\<close>, the only states that read the flag, it is
  set whenever a call of \<open>jsonEat\<close> begins: these states are entered by a pop, which
  sets it. Clearing it on the way into a nested object or array would change nothing.
\<close>

lemma not_refused_toState: "st \<noteq> STATE_INOBJECT \<Longrightarrow> st \<noteq> STATE_INARRAY \<Longrightarrow> \<not> comma_refused (toState st p)"
  using state_toState[of st p] by (auto simp: comma_refused_def)

lemma not_refused_upState: "\<not> comma_refused (upState p)"
  by (auto simp: comma_refused_def upState_def Let_def)

lemma not_refused_append:
  assumes "state p \<noteq> STATE_INOBJECT" "state p \<noteq> STATE_INARRAY"
  shows "\<not> comma_refused (appendName c p)" "\<not> comma_refused (appendValue c p)"
  using assms by (auto simp: comma_refused_def appendName_def appendValue_def Let_def)

lemma not_refused_setState:
  "st \<noteq> STATE_INOBJECT \<Longrightarrow> st \<noteq> STATE_INARRAY \<Longrightarrow> \<not> comma_refused (setState st p)"
  by (cases st) (auto simp: comma_refused_def setState_def)

lemma not_refused_misc [simp]:
  "\<not> comma_refused (jsonError e p)"
  "comma_refused (p\<lparr>isSlash := b\<rparr>) = comma_refused p"
  "comma_refused (invoke f ev p) = comma_refused p"
  by (simp_all add: comma_refused_def)

lemma dispatch_not_refused:
  assumes "\<not> comma_refused p" "dispatch c p = (again, q)"
  shows "\<not> comma_refused q"
proof (cases "state p")
  case STATE_NONE
  let ?r = "toState STATE_TONAME
              (toState STATE_INOBJECT
                (invoke (onObjectStart p) (CallObjectStart (cur_name p)) p))"
  have "state ?r = STATE_TONAME \<or> state ?r = STATE_NONE" by (rule state_toState)
  then have "\<not> comma_refused (?r\<lparr>allowComma := False\<rparr>)"
    by (auto simp: comma_refused_def)
  with STATE_NONE assms show ?thesis
    by (auto simp: dispatch_def not_refused_toState split: if_splits)
next
  case STATE_INOBJECT
  with assms show ?thesis
    by (auto simp: dispatch_def not_refused_toState not_refused_upState split: if_splits)
next
  case STATE_TONAME
  with assms show ?thesis
    by (auto simp: dispatch_def not_refused_setState split: if_splits)
next
  case STATE_INNAME
  with assms show ?thesis
    by (auto simp: dispatch_def not_refused_setState not_refused_append split: if_splits)
next
  case STATE_TOCOLUMN
  with assms show ?thesis
    by (auto simp: dispatch_def not_refused_setState split: if_splits)
next
  case STATE_TOVALUE
  with assms show ?thesis
    by (auto simp: dispatch_def not_refused_toState not_refused_setState split: if_splits)
next
  case STATE_INSTRING
  then have "\<not> comma_refused (appendValue c (appendValue BACKSLASH (p\<lparr>isSlash := False\<rparr>)))"
    using not_refused_append(2)[of "p\<lparr>isSlash := False\<rparr>" BACKSLASH]
    by (intro not_refused_append(2)) (auto simp: comma_refused_def appendValue_def Let_def)
  with STATE_INSTRING assms show ?thesis
    by (auto simp: dispatch_def not_refused_setState not_refused_append split: if_splits)
next
  case STATE_INNUM
  with assms show ?thesis
    by (auto simp: dispatch_def not_refused_setState not_refused_append split: if_splits)
next
  case STATE_INARRAY
  with assms show ?thesis
    by (auto simp: dispatch_def not_refused_toState not_refused_upState split: if_splits)
next
  case STATE_OUTVALUE
  with assms show ?thesis
    by (auto simp: dispatch_def not_refused_toState not_refused_upState split: if_splits)
qed

lemma jsonEatNoLog_not_refused: "\<not> comma_refused p \<Longrightarrow> \<not> comma_refused (jsonEatNoLog c p)"
proof (induction c p rule: jsonEatNoLog.induct)
  case (1 c p)
  obtain again q where d: "dispatch c p = (again, q)" by (cases "dispatch c p")
  note q = dispatch_not_refused[OF "1.prems" d]
  show ?case
  proof (cases again)
    case True
    then have "jsonEatNoLog c p = jsonEatNoLog c q" using d by (simp add: jsonEatNoLog.simps)
    then show ?thesis using "1.IH"[OF d[symmetric] True q] by simp
  next
    case False
    then have "jsonEatNoLog c p = q" using d by (simp add: jsonEatNoLog.simps)
    then show ?thesis using q by simp
  qed
qed

lemma comma_always_admitted:
  "state (feed cs freshSlot) = STATE_INOBJECT \<or> state (feed cs freshSlot) = STATE_INARRAY \<Longrightarrow>
   allowComma (feed cs freshSlot)"
proof -
  have step: "\<not> comma_refused (jsonEat c p)" if "\<not> comma_refused p" for c p
    using jsonEatNoLog_not_refused[of "logged c p" c] that
    by (simp add: jsonEat_logged comma_refused_def)
  have "\<not> comma_refused p \<Longrightarrow> \<not> comma_refused (feed cs p)" for p
    by (induction cs arbitrary: p) (simp_all add: step)
  moreover have "\<not> comma_refused freshSlot" by (simp add: comma_refused_def eval_defs)
  ultimately have "\<not> comma_refused (feed cs freshSlot)" by blast
  then show "state (feed cs freshSlot) = STATE_INOBJECT \<or> state (feed cs freshSlot) = STATE_INARRAY \<Longrightarrow>
   allowComma (feed cs freshSlot)"
    by (simp add: comma_refused_def)
qed

end
